theory Spec2Isabelle
  imports Complex_Main "HOL-Library.Sublist" "HOL-Library.Product_Lexorder"
begin

section \<open>A shallow embedding of the channel scheduler\<close>

text \<open>
  The sources are \<^verbatim>\<open>promise.ts\<close> (\<^verbatim>\<open>isPromise\<close>, \<^verbatim>\<open>createPendingPromise\<close>),
  \<^verbatim>\<open>delay.ts\<close> (\<^verbatim>\<open>runNextTick\<close>) and \<^verbatim>\<open>channel.ts\<close> (everything else).

  Conventions of the model.
  \<^item> A JavaScript \<^verbatim>\<open>number\<close> is modelled at its rational values (type \<open>rat\<close>) for
    \<^verbatim>\<open>concurrency\<close>, which the source stores unchecked and only compares with a length, and
    at its integer values (type \<open>int\<close>) for \<^verbatim>\<open>priority\<close> and \<^verbatim>\<open>requestedAt\<close> (a
    \<^verbatim>\<open>Date.now()\<close> reading, passed in as the argument \<open>now\<close>).
  \<^item> Object identity is explicit: every \<^verbatim>\<open>ChannelTask\<close> object carries the address \<open>tid\<close>
    it was allocated at, every function object its reference \<open>ref\<close>; \<^verbatim>\<open>===\<close> on objects
    compares these.
  \<^item> The observers are opaque callbacks, so the model records the calls they receive:
    \<open>channelLog\<close> for \<^verbatim>\<open>channel.eventHandler\<close>, \<open>taskLog\<close> for the
    \<^verbatim>\<open>options.eventHandler\<close> of the tasks that supplied one, \<open>resolved\<close> for the calls of
    \<^verbatim>\<open>resultPromise.resolve\<close>. A call of an observer returns or throws; the functions of
    \<^verbatim>\<open>channel.ts\<close> are given twice, first as they run when every observer call returns,
    then with observers that may throw (the source has no \<^verbatim>\<open>try\<close> around an observer
    call). Neither observers nor task functions call back into the channel.
  \<^item> A value that passes \<^verbatim>\<open>isPromise\<close> is taken to behave as a native promise:
    \<^verbatim>\<open>then\<close> and \<^verbatim>\<open>catch\<close> register the callbacks, and it settles at most once.
  \<^item> The callbacks queued by \<^verbatim>\<open>runNextTick\<close> are all \<^verbatim>\<open>() => proccessChannel(channel)\<close>,
    so \<open>scheduled\<close> counts them; \<open>awaiting\<close> lists the in-flight tasks on whose returned
    promise \<^verbatim>\<open>.then(...).catch(...)\<close> has been registered and which has not settled yet.
\<close>

subsection \<open>JavaScript values and \<^verbatim>\<open>isPromise\<close>\<close>

datatype jsval =
    JUndefined
  | JNull
  | JBool bool
  | JNum int
  | JStr string
  | JFunction nat
  | JObject "(string \<times> jsval) list"

fun typeof :: "jsval \<Rightarrow> string" where
  "typeof JUndefined = ''undefined''"
| "typeof JNull = ''object''"
| "typeof (JBool b) = ''boolean''"
| "typeof (JNum n) = ''number''"
| "typeof (JStr s) = ''string''"
| "typeof (JFunction f) = ''function''"
| "typeof (JObject ps) = ''object''"

text \<open>\<^verbatim>\<open>k in v\<close>, asked only of values that passed the two guards before it.\<close>

fun hasProperty :: "string \<Rightarrow> jsval \<Rightarrow> bool" where
  "hasProperty k (JObject ps) = (k \<in> fst ` set ps)"
| "hasProperty k v = False"

text \<open>\<^verbatim>\<open>v.k\<close>: the first binding of \<open>k\<close>, \<^verbatim>\<open>undefined\<close> when there is none.\<close>

fun getProperty :: "string \<Rightarrow> jsval \<Rightarrow> jsval" where
  "getProperty k (JObject ps) = (case map_of ps k of Some x \<Rightarrow> x | None \<Rightarrow> JUndefined)"
| "getProperty k v = JUndefined"

definition isPromise :: "jsval \<Rightarrow> bool" where
  "isPromise possiblePromise \<longleftrightarrow>
     typeof possiblePromise = ''object'' \<and>
     possiblePromise \<noteq> JNull \<and>
     hasProperty ''then'' possiblePromise \<and>
     hasProperty ''catch'' possiblePromise \<and>
     typeof (getProperty ''then'' possiblePromise) = ''function'' \<and>
     typeof (getProperty ''catch'' possiblePromise) = ''function''"

subsection \<open>Tasks, events, results\<close>

text \<open>
  What one call of a task function does: it returns a value or throws one. When the value
  returned is a promise, \<open>settles\<close> says how that promise settles, if it ever does.
\<close>

datatype outcome = Returns jsval | Throws jsval

datatype settlement = Fulfils jsval | Rejects jsval | NeverSettles

datatype fn = Fn (ref: nat) (call: outcome) (settles: settlement)

text \<open>
  The closure \<^verbatim>\<open>eventHandler\<close> that \<^verbatim>\<open>addTaskToChannel\<close> builds: it captures its
  \<^verbatim>\<open>resultPromise\<close> (by address) and whether \<^verbatim>\<open>options.eventHandler\<close> was supplied.
\<close>

datatype handlerFn = SubmitHandler (promiseOf: nat) (userHandler: bool)

record ChannelTask =
  tid :: nat
  task :: fn
  priority :: int
  requestedAt :: int
  eventHandler :: "handlerFn option"

datatype ChannelEvent =
    CANCELLED_ALL_TASKS
  | TASK_CANCELLED ChannelTask
  | TASK_COMPLETED ChannelTask bool bool jsval
  | TASK_STARTED ChannelTask
  | TASK_ADDED ChannelTask

record ChannelTaskResult =
  isSuccess :: bool
  isError :: bool
  isCancelation :: bool
  result :: jsval
  error :: jsval

text \<open>
  The ambient runtime, as \<^verbatim>\<open>runNextTick\<close> probes it:
  \<^verbatim>\<open>typeof requestAnimationFrame !== "undefined"\<close> and \<^verbatim>\<open>typeof setTimeout !== "undefined"\<close>.
\<close>

record runtime =
  hasRequestAnimationFrame :: bool
  hasSetTimeout :: bool

record Channel =
  concurrency :: rat
  hasEventHandler :: bool
  tasksInProgress :: "ChannelTask list"
  tasksInQueue :: "ChannelTask list"
  channelLog :: "ChannelEvent list"
  taskLog :: "ChannelEvent list"
  resolved :: "(nat \<times> ChannelTaskResult) list"
  awaiting :: "ChannelTask list"
  scheduled :: nat
  nextId :: nat
  env :: runtime

subsection \<open>The array operations the source uses\<close>

text \<open>\<^verbatim>\<open>Array.prototype.findIndex\<close> (and \<^verbatim>\<open>indexOf\<close>): the first index, or \<open>-1\<close>.\<close>

fun findIndex :: "('a \<Rightarrow> bool) \<Rightarrow> 'a list \<Rightarrow> int" where
  "findIndex p [] = - 1"
| "findIndex p (x # xs) =
     (if p x then 0 else (let i = findIndex p xs in if i = - 1 then - 1 else i + 1))"

text \<open>
  \<^verbatim>\<open>xs.splice(start, 1)\<close>: a negative \<open>start\<close> counts from the end, the start is clamped
  to \<open>0 .. length\<close>, and at most one element is removed. The pair is (removed, remaining).
\<close>

definition splice1 :: "int \<Rightarrow> 'a list \<Rightarrow> 'a list \<times> 'a list" where
  "splice1 start xs =
     (let len = int (length xs);
          actualStart = nat (if start < 0 then max (len + start) 0 else min start len)
      in (take 1 (drop actualStart xs), take actualStart xs @ drop (Suc actualStart) xs))"

text \<open>
  \<^verbatim>\<open>Array.prototype.sort(cmp)\<close> is a stable sort (ECMAScript 2019): insertion from the
  right, an element going in front of the first element that does not compare below it.
\<close>

fun insertBy :: "('a \<Rightarrow> 'a \<Rightarrow> int) \<Rightarrow> 'a \<Rightarrow> 'a list \<Rightarrow> 'a list" where
  "insertBy cmp x [] = [x]"
| "insertBy cmp x (y # ys) = (if cmp x y \<le> 0 then x # y # ys else y # insertBy cmp x ys)"

definition sortBy :: "('a \<Rightarrow> 'a \<Rightarrow> int) \<Rightarrow> 'a list \<Rightarrow> 'a list" where
  "sortBy cmp xs = foldr (insertBy cmp) xs []"

subsection \<open>\<^verbatim>\<open>channel.ts\<close>, when every observer call returns\<close>

text \<open>
  The functions of this subsection follow the source statement by statement on the path
  on which each call of \<^verbatim>\<open>channel.eventHandler\<close> and of a task's \<^verbatim>\<open>eventHandler\<close> returns.
  The next subsection gives them again with a result that says whether the function
  returned or an observer threw.
\<close>

definition sortChannelQueue :: "ChannelTask \<Rightarrow> ChannelTask \<Rightarrow> int" where
  "sortChannelQueue a b =
     (if priority a = priority b then requestedAt a - requestedAt b
      else priority a - priority b)"

definition resolve :: "nat \<Rightarrow> ChannelTaskResult \<Rightarrow> Channel \<Rightarrow> Channel" where
  "resolve p r s = s\<lparr>resolved := resolved s @ [(p, r)]\<rparr>"

text \<open>The closure of \<^verbatim>\<open>addTaskToChannel\<close>, lines 292 to 324.\<close>

fun submitEventHandler :: "nat \<Rightarrow> bool \<Rightarrow> ChannelEvent \<Rightarrow> Channel \<Rightarrow> Channel" where
  "submitEventHandler p user event s =
     (let s1 = (case event of
                  TASK_COMPLETED t ok err r \<Rightarrow>
                    (if ok
                     then resolve p \<lparr>isSuccess = True, isError = False, isCancelation = False,
                                     result = r, error = JUndefined\<rparr> s
                     else resolve p \<lparr>isSuccess = False, isError = True, isCancelation = False,
                                     result = JUndefined, error = r\<rparr> s)
                | TASK_CANCELLED t \<Rightarrow>
                    resolve p \<lparr>isSuccess = False, isError = False, isCancelation = True,
                               result = JUndefined, error = JUndefined\<rparr> s
                | _ \<Rightarrow> s)
      in if user then s1\<lparr>taskLog := taskLog s1 @ [event]\<rparr> else s1)"

definition channelEventHandler :: "ChannelEvent \<Rightarrow> Channel \<Rightarrow> Channel" where
  "channelEventHandler event s = s\<lparr>channelLog := channelLog s @ [event]\<rparr>"

definition sendEvent :: "ChannelTask \<Rightarrow> ChannelEvent \<Rightarrow> Channel \<Rightarrow> Channel" where
  "sendEvent t event s =
     (let s1 = channelEventHandler event s
      in case eventHandler t of
           None \<Rightarrow> s1
         | Some (SubmitHandler p user) \<Rightarrow> submitEventHandler p user event s1)"

record createArgs =
  argConcurrency :: "rat option"
  argEventHandler :: bool

text \<open>
  \<^verbatim>\<open>args?.concurrency || 1\<close>: an absent \<^verbatim>\<open>args\<close>, an absent or \<^verbatim>\<open>undefined\<close> field and
  the falsy number \<open>0\<close> all give \<open>1\<close>; any other number is stored as it is.
  \<^verbatim>\<open>args?.eventHandler || (() => {})\<close>: \<open>hasEventHandler\<close> says whether the observer is
  the caller's or the empty default. The runtime is the one the channel lives in.
\<close>

definition createChannel :: "runtime \<Rightarrow> createArgs option \<Rightarrow> Channel" where
  "createChannel rt args =
     \<lparr>concurrency =
        (case args of
           None \<Rightarrow> 1
         | Some a \<Rightarrow> (case argConcurrency a of
                        None \<Rightarrow> 1
                      | Some c \<Rightarrow> if c = 0 then 1 else c)),
      hasEventHandler = (case args of None \<Rightarrow> False | Some a \<Rightarrow> argEventHandler a),
      tasksInProgress = [],
      tasksInQueue = [],
      channelLog = [],
      taskLog = [],
      resolved = [],
      awaiting = [],
      scheduled = 0,
      nextId = 0,
      env = rt\<rparr>"

text \<open>\<^verbatim>\<open>delay.ts\<close>: queue the callback when the runtime can, call it on the spot when it cannot.\<close>

definition runNextTick :: "(Channel \<Rightarrow> Channel) \<Rightarrow> Channel \<Rightarrow> Channel" where
  "runNextTick fn s =
     (if hasRequestAnimationFrame (env s) then s\<lparr>scheduled := Suc (scheduled s)\<rparr>
      else if hasSetTimeout (env s) then s\<lparr>scheduled := Suc (scheduled s)\<rparr>
      else fn s)"

definition removeTaskFromInProgress :: "ChannelTask \<Rightarrow> Channel \<Rightarrow> Channel" where
  "removeTaskFromInProgress t s =
     s\<lparr>tasksInProgress :=
         snd (splice1 (findIndex (\<lambda>x. tid x = tid t) (tasksInProgress s)) (tasksInProgress s))\<rparr>"

text \<open>
  The block that follows each settling of a task in \<^verbatim>\<open>proccessChannel\<close>, up to its
  \<^verbatim>\<open>runNextTick\<close>: free the slot, send \<^verbatim>\<open>TASK_COMPLETED\<close>.
\<close>

definition taskCompleted :: "ChannelTask \<Rightarrow> bool \<Rightarrow> bool \<Rightarrow> jsval \<Rightarrow> Channel \<Rightarrow> Channel" where
  "taskCompleted t ok err r s =
     sendEvent t (TASK_COMPLETED t ok err r) (removeTaskFromInProgress t s)"

lemma runNextTick_cong [fundef_cong]:
  "s = s' \<Longrightarrow> (f s' = g s') \<Longrightarrow> runNextTick f s = runNextTick g s'"
  by (simp add: runNextTick_def)

lemma tasksInQueue_taskCompleted [simp]:
  "tasksInQueue (taskCompleted t ok err r s) = tasksInQueue s"
  by (cases "eventHandler t")
     (auto simp: taskCompleted_def sendEvent_def channelEventHandler_def
        removeTaskFromInProgress_def resolve_def Let_def split: handlerFn.splits)

lemma tasksInQueue_sendEvent [simp]:
  "tasksInQueue (sendEvent t ev s) = tasksInQueue s"
  by (cases "eventHandler t"; cases ev)
     (auto simp: sendEvent_def channelEventHandler_def resolve_def Let_def
        split: handlerFn.splits)

function proccessChannel :: "Channel \<Rightarrow> Channel" where
  "proccessChannel s =
     (if of_nat (length (tasksInProgress s)) \<ge> concurrency s then s
      else case tasksInQueue s of
        [] \<Rightarrow> s
      | t # q \<Rightarrow>
          (let s1 = s\<lparr>tasksInQueue := q, tasksInProgress := tasksInProgress s @ [t]\<rparr>;
               s2 = sendEvent t (TASK_STARTED t) s1
           in case call (task t) of
                Throws e \<Rightarrow> runNextTick proccessChannel (taskCompleted t False True e s2)
              | Returns v \<Rightarrow>
                  if isPromise v then s2\<lparr>awaiting := awaiting s2 @ [t]\<rparr>
                  else runNextTick proccessChannel (taskCompleted t True False v s2)))"
  by pat_completeness auto
termination
  by (relation "measure (\<lambda>s. length (tasksInQueue s))") auto

declare proccessChannel.simps [simp del]

record submitOptions =
  optTask :: fn
  optPriority :: "int option"
  optEventHandler :: bool

text \<open>What a submission returns: the promise of a pending result, or a settled one.\<close>

datatype handle = ResultPromise nat | PromiseResolved ChannelTaskResult

definition addTaskToChannel :: "submitOptions \<Rightarrow> int \<Rightarrow> Channel \<Rightarrow> handle \<times> Channel" where
  "addTaskToChannel options now s =
     (let prio = (case optPriority options of None \<Rightarrow> 0 | Some p \<Rightarrow> p);
          resultPromise = nextId s;
          t = \<lparr>tid = nextId s, task = optTask options, priority = prio, requestedAt = now,
               eventHandler = Some (SubmitHandler resultPromise (optEventHandler options))\<rparr>;
          s1 = s\<lparr>nextId := Suc (nextId s)\<rparr>;
          s2 = s1\<lparr>tasksInQueue := tasksInQueue s1 @ [t]\<rparr>;
          s3 = s2\<lparr>tasksInQueue := sortBy sortChannelQueue (tasksInQueue s2)\<rparr>;
          s4 = sendEvent t (TASK_ADDED t) s3;
          s5 = proccessChannel s4
      in (ResultPromise resultPromise, s5))"

definition cancelAllChannelTasks :: "Channel \<Rightarrow> Channel" where
  "cancelAllChannelTasks s =
     (let tasks = tasksInQueue s;
          s1 = s\<lparr>tasksInQueue := []\<rparr>;
          s2 = channelEventHandler CANCELLED_ALL_TASKS s1
      in fold (\<lambda>t. sendEvent t (TASK_CANCELLED t)) tasks s2)"

definition cancelChannelTask :: "fn \<Rightarrow> Channel \<Rightarrow> Channel" where
  "cancelChannelTask f s =
     (let foundChannelIndex = findIndex (\<lambda>x. ref (task x) = ref f) (tasksInQueue s)
      in if foundChannelIndex = - 1 then s
         else (let (removed, rest) = splice1 foundChannelIndex (tasksInQueue s);
                   s1 = s\<lparr>tasksInQueue := rest\<rparr>
               in case removed of
                    [] \<Rightarrow> s1
                  | taskInfo # _ \<Rightarrow> sendEvent taskInfo (TASK_CANCELLED taskInfo) s1))"


definition addTaskToChannelIfEmpty ::
  "submitOptions \<Rightarrow> int \<Rightarrow> Channel \<Rightarrow> handle \<times> Channel" where
  "addTaskToChannelIfEmpty options now s =
     (if length (tasksInQueue s) \<noteq> 0
      then (PromiseResolved \<lparr>isSuccess = False, isError = False, isCancelation = True,
                             result = JUndefined, error = JUndefined\<rparr>, s)
      else addTaskToChannel options now s)"

subsection \<open>\<^verbatim>\<open>channel.ts\<close>, with observers that may throw\<close>

text \<open>
  What the observers do when called: for each event, \<open>channelThrows\<close> gives the value the
  caller's \<^verbatim>\<open>channel.eventHandler\<close> throws on receiving it (\<open>None\<close> when it returns), and
  \<open>taskThrows\<close> the same for the \<^verbatim>\<open>options.eventHandler\<close> of the task of the event. The
  default observer \<^verbatim>\<open>() => {}\<close> and an absent \<^verbatim>\<open>options.eventHandler\<close> never throw.
\<close>

record observers =
  channelThrows :: "ChannelEvent \<Rightarrow> jsval option"
  taskThrows :: "ChannelEvent \<Rightarrow> jsval option"

text \<open>
  A call returns a value or throws one; in both cases the channel is left in the state the
  call has brought it to. \<open>andThen\<close> is the semicolon: the statements after a call that
  threw are skipped.
\<close>

datatype 'a completion = Normal 'a Channel | Abrupt jsval Channel

fun stateOf :: "'a completion \<Rightarrow> Channel" where
  "stateOf (Normal x s) = s"
| "stateOf (Abrupt e s) = s"


fun andThen :: "'a completion \<Rightarrow> (Channel \<Rightarrow> 'b completion) \<Rightarrow> 'b completion" where
  "andThen (Normal x s) f = f s"
| "andThen (Abrupt e s) f = Abrupt e s"

text \<open>The end of a call of an observer: the call has been received, then it returns or throws.\<close>

definition called :: "jsval option \<Rightarrow> Channel \<Rightarrow> unit completion" where
  "called exn s = (case exn of None \<Rightarrow> Normal () s | Some e \<Rightarrow> Abrupt e s)"

definition channelEventHandlerExn :: "observers \<Rightarrow> ChannelEvent \<Rightarrow> Channel \<Rightarrow> unit completion" where
  "channelEventHandlerExn obs event s =
     called (if hasEventHandler s then channelThrows obs event else None)
       (channelEventHandler event s)"

text \<open>
  The closure of \<^verbatim>\<open>addTaskToChannel\<close>: it resolves the promise, then calls
  \<^verbatim>\<open>options.eventHandler\<close> when there is one.
\<close>

definition submitEventHandlerExn ::
  "observers \<Rightarrow> nat \<Rightarrow> bool \<Rightarrow> ChannelEvent \<Rightarrow> Channel \<Rightarrow> unit completion" where
  "submitEventHandlerExn obs p user event s =
     called (if user then taskThrows obs event else None) (submitEventHandler p user event s)"

definition sendEventExn ::
  "observers \<Rightarrow> ChannelTask \<Rightarrow> ChannelEvent \<Rightarrow> Channel \<Rightarrow> unit completion" where
  "sendEventExn obs t event s =
     andThen (channelEventHandlerExn obs event s)
       (\<lambda>s1. case eventHandler t of
                None \<Rightarrow> Normal () s1
              | Some (SubmitHandler p user) \<Rightarrow> submitEventHandlerExn obs p user event s1)"

definition runNextTickExn :: "(Channel \<Rightarrow> unit completion) \<Rightarrow> Channel \<Rightarrow> unit completion" where
  "runNextTickExn fn s =
     (if hasRequestAnimationFrame (env s) then Normal () (s\<lparr>scheduled := Suc (scheduled s)\<rparr>)
      else if hasSetTimeout (env s) then Normal () (s\<lparr>scheduled := Suc (scheduled s)\<rparr>)
      else fn s)"

lemma andThen_cong [fundef_cong]:
  "r = r' \<Longrightarrow> (\<And>x s. r' = Normal x s \<Longrightarrow> f s = g s) \<Longrightarrow> andThen r f = andThen r' g"
  by (cases r') auto

lemma runNextTickExn_cong [fundef_cong]:
  "s = s' \<Longrightarrow> (f s' = g s') \<Longrightarrow> runNextTickExn f s = runNextTickExn g s'"
  by (simp add: runNextTickExn_def)

lemma sendEventExn_Normal:
  "sendEventExn obs t ev s = Normal x s' \<Longrightarrow> s' = sendEvent t ev s"
  by (cases "eventHandler t")
     (auto simp: sendEventExn_def channelEventHandlerExn_def submitEventHandlerExn_def called_def
        sendEvent_def split: option.splits handlerFn.splits if_splits
        simp del: submitEventHandler.simps)

lemma sendEventExn_queue:
  "sendEventExn obs t ev s = Normal x s' \<Longrightarrow> tasksInQueue s' = tasksInQueue s"
  by (drule sendEventExn_Normal) simp

text \<open>
  \<^verbatim>\<open>proccessChannel\<close>. The \<^verbatim>\<open>try\<close> encloses the call of the task function only, so a
  throw of an observer leaves \<^verbatim>\<open>proccessChannel\<close> at once, also from its \<^verbatim>\<open>catch\<close> block.
\<close>

function proccessChannelExn :: "observers \<Rightarrow> Channel \<Rightarrow> unit completion" where
  "proccessChannelExn obs s =
     (if of_nat (length (tasksInProgress s)) \<ge> concurrency s then Normal () s
      else case tasksInQueue s of
        [] \<Rightarrow> Normal () s
      | t # q \<Rightarrow>
          (let s1 = s\<lparr>tasksInQueue := q, tasksInProgress := tasksInProgress s @ [t]\<rparr>
           in andThen (sendEventExn obs t (TASK_STARTED t) s1)
                (\<lambda>s2. case call (task t) of
                   Throws e \<Rightarrow>
                     andThen (sendEventExn obs t (TASK_COMPLETED t False True e)
                                (removeTaskFromInProgress t s2))
                       (runNextTickExn (proccessChannelExn obs))
                 | Returns v \<Rightarrow>
                     if isPromise v then Normal () (s2\<lparr>awaiting := awaiting s2 @ [t]\<rparr>)
                     else andThen (sendEventExn obs t (TASK_COMPLETED t True False v)
                                     (removeTaskFromInProgress t s2))
                            (runNextTickExn (proccessChannelExn obs)))))"
  by pat_completeness auto
termination
  by (relation "measure (\<lambda>(obs, s). length (tasksInQueue s))")
     (auto dest!: sendEventExn_queue simp: removeTaskFromInProgress_def)

declare proccessChannelExn.simps [simp del]

text \<open>
  The two callbacks of \<^verbatim>\<open>result.then(...).catch(...)\<close>, lines 449 to 484. The \<^verbatim>\<open>catch\<close> is
  chained on the promise that \<^verbatim>\<open>then\<close> returns: its callback runs when the task's promise
  rejects, and also when the first callback throws, with the value thrown. What the second
  callback throws is an unhandled rejection; it reaches no caller.
\<close>

definition onFulfilled :: "observers \<Rightarrow> ChannelTask \<Rightarrow> jsval \<Rightarrow> Channel \<Rightarrow> unit completion" where
  "onFulfilled obs t v s =
     andThen (sendEventExn obs t (TASK_COMPLETED t True False v) (removeTaskFromInProgress t s))
       (runNextTickExn (proccessChannelExn obs))"

definition onRejected :: "observers \<Rightarrow> ChannelTask \<Rightarrow> jsval \<Rightarrow> Channel \<Rightarrow> unit completion" where
  "onRejected obs t e s =
     andThen (sendEventExn obs t (TASK_COMPLETED t False True e) (removeTaskFromInProgress t s))
       (runNextTickExn (proccessChannelExn obs))"

definition thenCatch ::
  "(jsval \<Rightarrow> Channel \<Rightarrow> unit completion) \<Rightarrow> (jsval \<Rightarrow> Channel \<Rightarrow> unit completion) \<Rightarrow>
   settlement \<Rightarrow> Channel \<Rightarrow> Channel" where
  "thenCatch thenCallback catchCallback st s =
     (case st of
        NeverSettles \<Rightarrow> s
      | Fulfils v \<Rightarrow>
          (case thenCallback v s of
             Normal x s' \<Rightarrow> s'
           | Abrupt e s' \<Rightarrow> stateOf (catchCallback e s'))
      | Rejects e \<Rightarrow> stateOf (catchCallback e s))"

definition addTaskToChannelExn ::
  "observers \<Rightarrow> submitOptions \<Rightarrow> int \<Rightarrow> Channel \<Rightarrow> handle completion" where
  "addTaskToChannelExn obs options now s =
     (let prio = (case optPriority options of None \<Rightarrow> 0 | Some p \<Rightarrow> p);
          resultPromise = nextId s;
          t = \<lparr>tid = nextId s, task = optTask options, priority = prio, requestedAt = now,
               eventHandler = Some (SubmitHandler resultPromise (optEventHandler options))\<rparr>;
          s1 = s\<lparr>nextId := Suc (nextId s)\<rparr>;
          s2 = s1\<lparr>tasksInQueue := tasksInQueue s1 @ [t]\<rparr>;
          s3 = s2\<lparr>tasksInQueue := sortBy sortChannelQueue (tasksInQueue s2)\<rparr>
      in andThen (sendEventExn obs t (TASK_ADDED t) s3)
           (\<lambda>s4. andThen (proccessChannelExn obs s4)
              (\<lambda>s5. Normal (ResultPromise resultPromise) s5)))"

text \<open>\<^verbatim>\<open>for (const task of tasks) { ... }\<close>: a throw of the body ends the loop.\<close>

fun forEach :: "('a \<Rightarrow> Channel \<Rightarrow> unit completion) \<Rightarrow> 'a list \<Rightarrow> Channel \<Rightarrow> unit completion" where
  "forEach body [] s = Normal () s"
| "forEach body (x # xs) s = andThen (body x s) (forEach body xs)"

definition cancelAllChannelTasksExn :: "observers \<Rightarrow> Channel \<Rightarrow> unit completion" where
  "cancelAllChannelTasksExn obs s =
     (let tasks = tasksInQueue s;
          s1 = s\<lparr>tasksInQueue := []\<rparr>
      in andThen (channelEventHandlerExn obs CANCELLED_ALL_TASKS s1)
           (forEach (\<lambda>t. sendEventExn obs t (TASK_CANCELLED t)) tasks))"

definition cancelChannelTaskExn :: "observers \<Rightarrow> fn \<Rightarrow> Channel \<Rightarrow> unit completion" where
  "cancelChannelTaskExn obs f s =
     (let foundChannelIndex = findIndex (\<lambda>x. ref (task x) = ref f) (tasksInQueue s)
      in if foundChannelIndex = - 1 then Normal () s
         else (let (removed, rest) = splice1 foundChannelIndex (tasksInQueue s);
                   s1 = s\<lparr>tasksInQueue := rest\<rparr>
               in case removed of
                    [] \<Rightarrow> Normal () s1
                  | taskInfo # _ \<Rightarrow> sendEventExn obs taskInfo (TASK_CANCELLED taskInfo) s1))"

definition addTaskToChannelExclusivelyExn ::
  "observers \<Rightarrow> submitOptions \<Rightarrow> int \<Rightarrow> Channel \<Rightarrow> handle completion" where
  "addTaskToChannelExclusivelyExn obs options now s =
     (if length (tasksInQueue s) \<noteq> 0
      then andThen (cancelAllChannelTasksExn obs s) (addTaskToChannelExn obs options now)
      else addTaskToChannelExn obs options now s)"

definition addTaskToChannelIfEmptyExn ::
  "observers \<Rightarrow> submitOptions \<Rightarrow> int \<Rightarrow> Channel \<Rightarrow> handle completion" where
  "addTaskToChannelIfEmptyExn obs options now s =
     (if length (tasksInQueue s) \<noteq> 0
      then Normal (PromiseResolved \<lparr>isSuccess = False, isError = False, isCancelation = True,
                                    result = JUndefined, error = JUndefined\<rparr>) s
      else addTaskToChannelExn obs options now s)"

subsection \<open>Runs of the system\<close>

text \<open>
  What can happen to a channel: a call of its interface, a queued \<^verbatim>\<open>runNextTick\<close> callback
  firing, or the promise of an in-flight task settling. The last two are steps of the
  runtime; they do nothing when no callback is queued or no such promise is awaited, and
  what they throw goes to the runtime (an uncaught error, an unhandled rejection), not to
  a caller of the interface. A settlement is one step: when the first callback throws,
  the second runs in the same step, with no call of the interface in between.
  \<open>perform\<close> is one such step with what its caller sees, \<open>step\<close> the state it leaves,
  \<open>run\<close> a sequence of steps.
\<close>

datatype action =
    Submit submitOptions int
  | SubmitExclusive submitOptions int
  | SubmitIfIdle submitOptions int
  | CancelAll
  | CancelOne fn
  | Tick
  | Settle nat

definition tick :: "observers \<Rightarrow> Channel \<Rightarrow> Channel" where
  "tick obs s =
     (if scheduled s = 0 then s
      else stateOf (proccessChannelExn obs (s\<lparr>scheduled := scheduled s - 1\<rparr>)))"

definition settle :: "observers \<Rightarrow> nat \<Rightarrow> Channel \<Rightarrow> Channel" where
  "settle obs i s =
     (case filter (\<lambda>t. tid t = i) (awaiting s) of
        [] \<Rightarrow> s
      | t # _ \<Rightarrow>
          (case settles (task t) of
             NeverSettles \<Rightarrow> s
           | st \<Rightarrow> thenCatch (onFulfilled obs t) (onRejected obs t) st
                    (s\<lparr>awaiting := filter (\<lambda>x. tid x \<noteq> i) (awaiting s)\<rparr>)))"

fun returned :: "'a completion \<Rightarrow> unit completion" where
  "returned (Normal x s) = Normal () s"
| "returned (Abrupt e s) = Abrupt e s"

fun perform :: "observers \<Rightarrow> action \<Rightarrow> Channel \<Rightarrow> unit completion" where
  "perform obs (Submit options now) s = returned (addTaskToChannelExn obs options now s)"
| "perform obs (SubmitExclusive options now) s =
     returned (addTaskToChannelExclusivelyExn obs options now s)"
| "perform obs (SubmitIfIdle options now) s =
     returned (addTaskToChannelIfEmptyExn obs options now s)"
| "perform obs CancelAll s = cancelAllChannelTasksExn obs s"
| "perform obs (CancelOne f) s = cancelChannelTaskExn obs f s"
| "perform obs Tick s = Normal () (tick obs s)"
| "perform obs (Settle i) s = Normal () (settle obs i s)"

definition step :: "observers \<Rightarrow> action \<Rightarrow> Channel \<Rightarrow> Channel" where
  "step obs a s = stateOf (perform obs a s)"

definition run :: "observers \<Rightarrow> Channel \<Rightarrow> action list \<Rightarrow> Channel" where
  "run obs s acts = foldl (\<lambda>s a. step obs a s) s acts"

subsection \<open>Sample inputs\<close>

text \<open>
  A runtime with \<^verbatim>\<open>setTimeout\<close> only and one with neither facility, a promise, a task
  function that returns it, one that returns a number, one that throws and one whose
  promise rejects.
\<close>

definition sampleRuntime :: runtime where
  "sampleRuntime = \<lparr>hasRequestAnimationFrame = False, hasSetTimeout = True\<rparr>"

definition bareRuntime :: runtime where
  "bareRuntime = \<lparr>hasRequestAnimationFrame = False, hasSetTimeout = False\<rparr>"

definition samplePromise :: jsval where
  "samplePromise = JObject [(''then'', JFunction 0), (''catch'', JFunction 1)]"

definition sampleAsync :: fn where
  "sampleAsync = Fn 1 (Returns samplePromise) (Fulfils (JNum 1))"

definition sampleSync :: fn where
  "sampleSync = Fn 2 (Returns (JNum 2)) NeverSettles"

definition sampleThrows :: fn where
  "sampleThrows = Fn 3 (Throws (JStr ''Error 1'')) NeverSettles"


definition sampleOptions :: "fn \<Rightarrow> submitOptions" where
  "sampleOptions f = \<lparr>optTask = f, optPriority = None, optEventHandler = True\<rparr>"

text \<open>
  Observers: all of them returning; the tasks' observers throwing on \<^verbatim>\<open>TASK_COMPLETED\<close>;
  the channel's observer throwing on a \<^verbatim>\<open>TASK_COMPLETED\<close> that reports an error.
\<close>

definition silent :: observers where
  "silent = \<lparr>channelThrows = (\<lambda>ev. None), taskThrows = (\<lambda>ev. None)\<rparr>"

definition taskObserverThrows :: observers where
  "taskObserverThrows =
     \<lparr>channelThrows = (\<lambda>ev. None),
      taskThrows = (\<lambda>ev. case ev of
                            TASK_COMPLETED t ok err r \<Rightarrow> Some (JStr ''observer'')
                          | _ \<Rightarrow> None)\<rparr>"



definition sampleTwoSlots :: Channel where
  "sampleTwoSlots =
     createChannel sampleRuntime (Some \<lparr>argConcurrency = Some 2, argEventHandler = True\<rparr>)"

definition sampleFractional :: Channel where
  "sampleFractional =
     createChannel sampleRuntime (Some \<lparr>argConcurrency = Some (3 / 2), argEventHandler = True\<rparr>)"

text \<open>One task in flight and nothing queued; one in flight and two queued behind it.\<close>

definition sampleBusy :: Channel where
  "sampleBusy = run silent (createChannel sampleRuntime None) [Submit (sampleOptions sampleAsync) 0]"

definition sampleQueued :: Channel where
  "sampleQueued = run silent (createChannel sampleRuntime None)
     [Submit (sampleOptions sampleAsync) 0, Submit (sampleOptions sampleSync) 1,
      Submit (sampleOptions sampleSync) 2]"

text \<open>One task in flight; queued behind it a throwing task and the same function twice.\<close>

definition sampleDuplicates :: Channel where
  "sampleDuplicates = run silent (createChannel sampleRuntime None)
     [Submit (sampleOptions sampleAsync) 0, Submit (sampleOptions sampleThrows) 1,
      Submit (sampleOptions sampleSync) 2, Submit (sampleOptions sampleSync) 3]"






definition sampleThrowingTask :: ChannelTask where
  "sampleThrowingTask =
     \<lparr>tid = 1, task = sampleThrows, priority = 0, requestedAt = 1,
      eventHandler = Some (SubmitHandler 1 True)\<rparr>"




text \<open>
  Submissions with explicit priorities: behind a task in flight, one of priority 5 and then
  two of priority 0, the last two within the same millisecond; then the first task settles.
\<close>

definition sampleOptionsAt :: "fn \<Rightarrow> int \<Rightarrow> submitOptions" where
  "sampleOptionsAt f p = \<lparr>optTask = f, optPriority = Some p, optEventHandler = False\<rparr>"

definition samplePriorities :: "action list" where
  "samplePriorities =
     [Submit (sampleOptions sampleAsync) 0, Submit (sampleOptionsAt sampleSync 5) 1,
      Submit (sampleOptionsAt sampleSync 0) 2, Submit (sampleOptionsAt sampleAsync 0) 2,
      Settle 0]"

text \<open>
  Submissions during which the clock is set back: the readings are 10, 5 and 3, all at
  the default priority; then the first task settles and the queued callback fires.
\<close>

definition sampleClockBack :: "action list" where
  "sampleClockBack =
     [Submit (sampleOptions sampleAsync) 10, Submit (sampleOptions sampleSync) 5,
      Submit (sampleOptions sampleSync) 3, Settle 0, Tick]"

section \<open>Notions for the statements and the proofs\<close>

text \<open>
  None of these is part of the program: they name the results, the intermediate states of
  a dispatch, the projections of a state on one task, and the invariants.
\<close>

subsection \<open>Results and deliveries\<close>

text \<open>The three result objects that the closure of \<^verbatim>\<open>addTaskToChannel\<close> resolves with.\<close>

definition cancelledResult :: ChannelTaskResult where
  "cancelledResult = \<lparr>isSuccess = False, isError = False, isCancelation = True,
                       result = JUndefined, error = JUndefined\<rparr>"

definition successResult :: "jsval \<Rightarrow> ChannelTaskResult" where
  "successResult v = \<lparr>isSuccess = True, isError = False, isCancelation = False,
                       result = v, error = JUndefined\<rparr>"

definition failureResult :: "jsval \<Rightarrow> ChannelTaskResult" where
  "failureResult e = \<lparr>isSuccess = False, isError = True, isCancelation = False,
                       result = JUndefined, error = e\<rparr>"

fun eventResult :: "ChannelEvent \<Rightarrow> ChannelTaskResult list" where
  "eventResult (TASK_COMPLETED t ok err r) = [if ok then successResult r else failureResult r]"
| "eventResult (TASK_CANCELLED t) = [cancelledResult]"
| "eventResult ev = []"

text \<open>The calls of \<^verbatim>\<open>resolve\<close> and of the task's own observer that one event causes.\<close>

definition resolutions :: "ChannelTask \<Rightarrow> ChannelEvent \<Rightarrow> (nat \<times> ChannelTaskResult) list" where
  "resolutions t ev =
     (case eventHandler t of
        None \<Rightarrow> []
      | Some h \<Rightarrow> map (\<lambda>r. (promiseOf h, r)) (eventResult ev))"

definition deliveries :: "ChannelTask \<Rightarrow> ChannelEvent \<Rightarrow> ChannelEvent list" where
  "deliveries t ev =
     (case eventHandler t of
        None \<Rightarrow> []
      | Some h \<Rightarrow> if userHandler h then [ev] else [])"

subsection \<open>The steps of a dispatch\<close>

text \<open>
  Names for the states \<^verbatim>\<open>proccessChannel\<close>, \<^verbatim>\<open>addTaskToChannel\<close> and the promise callbacks
  pass through, so that an invariant is checked once per kind of step:
  \<open>enqueued\<close> (the task is pushed, the queue sorted, \<^verbatim>\<open>TASK_ADDED\<close> sent),
  \<open>started\<close> (the head is moved to the in-flight list, \<^verbatim>\<open>TASK_STARTED\<close> sent),
  \<open>taskCompleted\<close>, and \<open>settled\<close> (the promise of an awaited task has settled).
\<close>

definition started :: "ChannelTask \<Rightarrow> ChannelTask list \<Rightarrow> Channel \<Rightarrow> Channel" where
  "started t q s =
     sendEvent t (TASK_STARTED t)
       (s\<lparr>tasksInQueue := q, tasksInProgress := tasksInProgress s @ [t]\<rparr>)"

definition deferred :: "Channel \<Rightarrow> bool" where
  "deferred s \<longleftrightarrow> hasRequestAnimationFrame (env s) \<or> hasSetTimeout (env s)"

definition syncOutcome :: "ChannelTask \<Rightarrow> bool \<Rightarrow> bool \<Rightarrow> jsval \<Rightarrow> bool" where
  "syncOutcome t ok err r \<longleftrightarrow>
     (call (task t) = Throws r \<and> \<not> ok \<and> err) \<or>
     (call (task t) = Returns r \<and> \<not> isPromise r \<and> ok \<and> \<not> err)"

definition newTask :: "submitOptions \<Rightarrow> int \<Rightarrow> Channel \<Rightarrow> ChannelTask" where
  "newTask options now s =
     \<lparr>tid = nextId s, task = optTask options,
      priority = (case optPriority options of None \<Rightarrow> 0 | Some p \<Rightarrow> p), requestedAt = now,
      eventHandler = Some (SubmitHandler (nextId s) (optEventHandler options))\<rparr>"

definition enqueued :: "submitOptions \<Rightarrow> int \<Rightarrow> Channel \<Rightarrow> Channel" where
  "enqueued options now s =
     sendEvent (newTask options now s) (TASK_ADDED (newTask options now s))
       (s\<lparr>nextId := Suc (nextId s),
          tasksInQueue := sortBy sortChannelQueue (tasksInQueue s @ [newTask options now s])\<rparr>)"

definition asyncOutcome :: "ChannelTask \<Rightarrow> bool \<Rightarrow> bool \<Rightarrow> jsval \<Rightarrow> bool" where
  "asyncOutcome t ok err r \<longleftrightarrow>
     (settles (task t) = Fulfils r \<and> ok \<and> \<not> err) \<or>
     (settles (task t) = Rejects r \<and> \<not> ok \<and> err)"

definition settled :: "ChannelTask \<Rightarrow> bool \<Rightarrow> bool \<Rightarrow> jsval \<Rightarrow> Channel \<Rightarrow> Channel" where
  "settled t ok err r s =
     taskCompleted t ok err r (s\<lparr>awaiting := filter (\<lambda>x. tid x \<noteq> tid t) (awaiting s)\<rparr>)"

fun stamp :: "action \<Rightarrow> int option" where
  "stamp (Submit options now) = Some now"
| "stamp (SubmitExclusive options now) = Some now"
| "stamp (SubmitIfIdle options now) = Some now"
| "stamp a = None"

subsection \<open>Predicates on values and states\<close>

definition bounded :: "rat \<Rightarrow> Channel \<Rightarrow> bool" where
  "bounded c s \<longleftrightarrow> concurrency s = c \<and> of_nat (length (tasksInProgress s)) \<le> c"


definition frameFree :: "(Channel \<Rightarrow> bool) \<Rightarrow> bool" where
  "frameFree P \<longleftrightarrow> (\<forall>s l r. P s \<longrightarrow> P (s\<lparr>taskLog := l, resolved := r\<rparr>))"



subsection \<open>The life cycle of a task, as a projection of the state\<close>

text \<open>
  For a task address \<open>i\<close>, the \<open>view\<close> collects everything the channel holds and has
  said about the task allocated there: its entries in the queue and in the in-flight list,
  the events about it that the channel's observer and its own observer received, the
  results its promise was resolved with, and whether the address has been allocated.
  A task is in one of five phases, and each phase fixes the view completely.
\<close>

fun concerns :: "nat \<Rightarrow> ChannelEvent \<Rightarrow> bool" where
  "concerns i CANCELLED_ALL_TASKS = False"
| "concerns i (TASK_CANCELLED t) = (tid t = i)"
| "concerns i (TASK_COMPLETED t ok err r) = (tid t = i)"
| "concerns i (TASK_STARTED t) = (tid t = i)"
| "concerns i (TASK_ADDED t) = (tid t = i)"

definition eventsOf :: "nat \<Rightarrow> ChannelEvent list \<Rightarrow> ChannelEvent list" where
  "eventsOf i evs = filter (concerns i) evs"

definition resolvedOf :: "nat \<Rightarrow> (nat \<times> ChannelTaskResult) list \<Rightarrow> ChannelTaskResult list" where
  "resolvedOf i rs = map snd (filter (\<lambda>pr. fst pr = i) rs)"


definition settledAs :: "ChannelTask \<Rightarrow> bool \<Rightarrow> jsval \<Rightarrow> bool" where
  "settledAs t ok r \<longleftrightarrow>
     (case call (task t) of
        Throws e \<Rightarrow> \<not> ok \<and> r = e
      | Returns v \<Rightarrow>
          if isPromise v
          then (case settles (task t) of
                  Fulfils x \<Rightarrow> ok \<and> r = x
                | Rejects e \<Rightarrow> \<not> ok \<and> r = e
                | NeverSettles \<Rightarrow> False)
          else ok \<and> r = v)"

datatype phase =
    Unborn
  | Queued ChannelTask
  | Running ChannelTask
  | Finished ChannelTask bool jsval
  | Dropped ChannelTask

type_synonym view =
  "ChannelTask list \<times> ChannelTask list \<times> ChannelEvent list \<times> ChannelEvent list \<times>
   ChannelTaskResult list \<times> bool"

definition view :: "nat \<Rightarrow> Channel \<Rightarrow> view" where
  "view i s =
     (filter (\<lambda>t. tid t = i) (tasksInQueue s),
      filter (\<lambda>t. tid t = i) (tasksInProgress s),
      eventsOf i (channelLog s),
      eventsOf i (taskLog s),
      resolvedOf i (resolved s),
      i < nextId s)"

definition observed :: "ChannelTask \<Rightarrow> ChannelEvent list \<Rightarrow> ChannelEvent list" where
  "observed t evs =
     (case eventHandler t of None \<Rightarrow> [] | Some h \<Rightarrow> if userHandler h then evs else [])"

fun expected :: "phase \<Rightarrow> view" where
  "expected Unborn = ([], [], [], [], [], False)"
| "expected (Queued t) = ([t], [], [TASK_ADDED t], observed t [TASK_ADDED t], [], True)"
| "expected (Running t) =
     ([], [t], [TASK_ADDED t, TASK_STARTED t], observed t [TASK_ADDED t, TASK_STARTED t], [], True)"
| "expected (Finished t ok r) =
     ([], [], [TASK_ADDED t, TASK_STARTED t, TASK_COMPLETED t ok (\<not> ok) r],
      observed t [TASK_ADDED t, TASK_STARTED t, TASK_COMPLETED t ok (\<not> ok) r],
      [if ok then successResult r else failureResult r], True)"
| "expected (Dropped t) =
     ([], [], [TASK_ADDED t, TASK_CANCELLED t], observed t [TASK_ADDED t, TASK_CANCELLED t],
      [cancelledResult], True)"

definition ownHandler :: "nat \<Rightarrow> ChannelTask \<Rightarrow> bool" where
  "ownHandler i t \<longleftrightarrow>
     tid t = i \<and> (case eventHandler t of None \<Rightarrow> False | Some h \<Rightarrow> promiseOf h = i)"

fun valid :: "nat \<Rightarrow> phase \<Rightarrow> bool" where
  "valid i Unborn = True"
| "valid i (Queued t) = ownHandler i t"
| "valid i (Running t) = ownHandler i t"
| "valid i (Finished t ok r) = (ownHandler i t \<and> settledAs t ok r)"
| "valid i (Dropped t) = ownHandler i t"

definition lifecycle :: "Channel \<Rightarrow> bool" where
  "lifecycle s \<longleftrightarrow> (\<forall>i. \<exists>ph. valid i ph \<and> view i s = expected ph)"

definition awaitingOk :: "Channel \<Rightarrow> bool" where
  "awaitingOk s \<longleftrightarrow>
     (\<forall>t\<in>set (awaiting s). t \<in> set (tasksInProgress s) \<and>
        (\<exists>v. call (task t) = Returns v \<and> isPromise v))"


definition queueKey :: "ChannelTask \<Rightarrow> int \<times> int" where
  "queueKey t = (priority t, requestedAt t)"


subsection \<open>Failure, and pending dispatches\<close>






subsection \<open>Submission order\<close>

text \<open>
  Task addresses are allocated in submission order, so \<open>tid a < tid b\<close> says that \<open>a\<close> was
  submitted before \<open>b\<close>. \<open>stamps\<close> lists the \<^verbatim>\<open>Date.now()\<close> readings of the submissions of
  a run, \<open>startedTasks\<close> the tasks of the \<^verbatim>\<open>TASK_STARTED\<close> events of a log, in order.
  \<open>arrival c\<close> is the invariant: the queue is ordered by priority, then time stamp, then
  submission; no queued task was stamped after \<open>c\<close>; and every task already started was
  submitted before every queued task of its priority.
\<close>

definition before :: "ChannelTask \<Rightarrow> ChannelTask \<Rightarrow> bool" where
  "before a b \<longleftrightarrow>
     priority a \<le> priority b \<and>
     (priority a = priority b \<longrightarrow> requestedAt a \<le> requestedAt b \<and> tid a < tid b)"

fun startedTask :: "ChannelEvent \<Rightarrow> ChannelTask list" where
  "startedTask (TASK_STARTED t) = [t]"
| "startedTask ev = []"

definition startedTasks :: "ChannelEvent list \<Rightarrow> ChannelTask list" where
  "startedTasks evs = concat (map startedTask evs)"

definition stamps :: "action list \<Rightarrow> int list" where
  "stamps acts = concat (map (\<lambda>a. case stamp a of None \<Rightarrow> [] | Some n \<Rightarrow> [n]) acts)"

definition sameLevel :: "ChannelTask \<Rightarrow> ChannelTask \<Rightarrow> bool" where
  "sameLevel a b \<longleftrightarrow> (priority a = priority b \<longrightarrow> tid a < tid b)"

definition arrival :: "int \<Rightarrow> Channel \<Rightarrow> bool" where
  "arrival c s \<longleftrightarrow>
     sorted_wrt before (tasksInQueue s) \<and>
     (\<forall>t\<in>set (tasksInQueue s). requestedAt t \<le> c \<and> tid t < nextId s) \<and>
     (\<forall>u\<in>set (startedTasks (channelLog s)).
        tid u < nextId s \<and> (\<forall>t\<in>set (tasksInQueue s). sameLevel u t)) \<and>
     sorted_wrt sameLevel (startedTasks (channelLog s))"

definition keyed :: "Channel \<Rightarrow> bool" where
  "keyed s \<longleftrightarrow> sorted (map queueKey (tasksInQueue s))"

subsection \<open>The queue, as the events tell it\<close>

text \<open>
  \<open>pending evs\<close> replays the events \<open>evs\<close> that the channel's observer has received and
  gives the tasks that are queued after them: a task enters with its \<^verbatim>\<open>TASK_ADDED\<close>,
  leaves with its \<^verbatim>\<open>TASK_STARTED\<close> or \<^verbatim>\<open>TASK_CANCELLED\<close>, and \<^verbatim>\<open>CANCELLED_ALL_TASKS\<close>
  empties the queue. \<open>orderly R evs\<close> says of every \<^verbatim>\<open>TASK_STARTED\<close> in \<open>evs\<close> that its task
  was queued when it was started and stood in the relation \<open>R\<close> to every task queued then.
  \<open>traced R\<close> is the invariant: the replay gives the queue, queued tasks have distinct
  addresses, allocated ones, and the events so far are orderly.
\<close>

fun pendingStep :: "ChannelTask list \<Rightarrow> ChannelEvent \<Rightarrow> ChannelTask list" where
  "pendingStep ts (TASK_ADDED t) = ts @ [t]"
| "pendingStep ts (TASK_STARTED t) = filter (\<lambda>x. tid x \<noteq> tid t) ts"
| "pendingStep ts (TASK_CANCELLED t) = filter (\<lambda>x. tid x \<noteq> tid t) ts"
| "pendingStep ts CANCELLED_ALL_TASKS = []"
| "pendingStep ts (TASK_COMPLETED t ok err r) = ts"

definition pending :: "ChannelEvent list \<Rightarrow> ChannelTask list" where
  "pending evs = foldl pendingStep [] evs"

definition orderly :: "(ChannelTask \<Rightarrow> ChannelTask \<Rightarrow> bool) \<Rightarrow> ChannelEvent list \<Rightarrow> bool" where
  "orderly R evs \<longleftrightarrow>
     (\<forall>pre u post. evs = pre @ TASK_STARTED u # post \<longrightarrow>
        u \<in> set (pending pre) \<and> (\<forall>t\<in>set (pending pre). R u t))"

definition traced :: "(ChannelTask \<Rightarrow> ChannelTask \<Rightarrow> bool) \<Rightarrow> Channel \<Rightarrow> bool" where
  "traced R s \<longleftrightarrow>
     set (pending (channelLog s)) = set (tasksInQueue s) \<and>
     distinct (map tid (tasksInQueue s)) \<and>
     (\<forall>t\<in>set (tasksInQueue s). tid t < nextId s) \<and>
     orderly R (channelLog s)"

definition keyOrder :: "ChannelTask \<Rightarrow> ChannelTask \<Rightarrow> bool" where
  "keyOrder a b \<longleftrightarrow>
     priority a \<le> priority b \<and> (priority a = priority b \<longrightarrow> requestedAt a \<le> requestedAt b)"

definition levelOrder :: "ChannelTask \<Rightarrow> ChannelTask \<Rightarrow> bool" where
  "levelOrder a b \<longleftrightarrow> (priority a = priority b \<longrightarrow> tid a \<le> tid b)"

definition ranked :: "Channel \<Rightarrow> bool" where
  "ranked s \<longleftrightarrow> keyed s \<and> traced keyOrder s"

definition queued :: "int \<Rightarrow> Channel \<Rightarrow> bool" where
  "queued c s \<longleftrightarrow> arrival c s \<and> traced levelOrder s"

section \<open>Properties\<close>

subsection \<open>What one \<^verbatim>\<open>sendEvent\<close> changes\<close>

lemma sendEvent_eq:
  "sendEvent t ev s =
     s\<lparr>channelLog := channelLog s @ [ev],
       taskLog := taskLog s @ deliveries t ev,
       resolved := resolved s @ resolutions t ev\<rparr>"
  by (cases "eventHandler t"; cases ev)
     (auto simp: sendEvent_def channelEventHandler_def resolve_def Let_def
        successResult_def failureResult_def cancelledResult_def
        resolutions_def deliveries_def split: handlerFn.splits)

subsection \<open>Array operations\<close>

lemma findIndex_none: "(\<forall>x\<in>set xs. \<not> p x) \<Longrightarrow> findIndex p xs = - 1"
  by (induction xs) auto

lemma findIndex_first:
  "(\<forall>x\<in>set xs. \<not> p x) \<Longrightarrow> p t \<Longrightarrow> findIndex p (xs @ t # ys) = int (length xs)"
  by (induction xs) (auto simp: Let_def)

lemma splice1_at: "splice1 (int (length xs)) (xs @ t # ys) = ([t], xs @ ys)"
  by (simp add: splice1_def Let_def)

subsection \<open>Cancellation\<close>

lemma fold_sendEvent_cancel:
  "fold (\<lambda>t. sendEvent t (TASK_CANCELLED t)) ts s =
     s\<lparr>channelLog := channelLog s @ map TASK_CANCELLED ts,
       taskLog := taskLog s @ concat (map (\<lambda>t. deliveries t (TASK_CANCELLED t)) ts),
       resolved := resolved s @ concat (map (\<lambda>t. resolutions t (TASK_CANCELLED t)) ts)\<rparr>"
  by (induction ts arbitrary: s) (simp_all add: sendEvent_eq)

lemma cancelAllChannelTasks_eq:
  "cancelAllChannelTasks s =
     s\<lparr>tasksInQueue := [],
       channelLog := channelLog s @ CANCELLED_ALL_TASKS # map TASK_CANCELLED (tasksInQueue s),
       taskLog := taskLog s @ concat (map (\<lambda>t. deliveries t (TASK_CANCELLED t)) (tasksInQueue s)),
       resolved := resolved s @ concat (map (\<lambda>t. resolutions t (TASK_CANCELLED t)) (tasksInQueue s))\<rparr>"
  by (simp add: cancelAllChannelTasks_def Let_def fold_sendEvent_cancel channelEventHandler_def)

lemma cancelChannelTask_found:
  assumes "tasksInQueue s = xs @ t # ys" and "\<forall>x\<in>set xs. ref (task x) \<noteq> ref f"
    and "ref (task t) = ref f"
  shows "cancelChannelTask f s = sendEvent t (TASK_CANCELLED t) (s\<lparr>tasksInQueue := xs @ ys\<rparr>)"
  using assms findIndex_first [of xs "\<lambda>x. ref (task x) = ref f" t ys]
  by (simp add: cancelChannelTask_def Let_def splice1_at)


text \<open>
  C1, as the code has it. \<^verbatim>\<open>cancelAllChannelTasks\<close> has no guard on the queue: called on
  a channel whose run queue is empty it still calls the channel's observer once, with
  \<^verbatim>\<open>CANCELLED_ALL_TASKS\<close>. It sends no \<^verbatim>\<open>TASK_CANCELLED\<close>, resolves no promise, and leaves
  the concurrency limit, the queue, the in-flight tasks and the queued callbacks as they were.
\<close>

theorem cancelAll_on_empty_queue:
  "tasksInQueue s = [] \<Longrightarrow>
   cancelAllChannelTasks s = s\<lparr>channelLog := channelLog s @ [CANCELLED_ALL_TASKS]\<rparr>"
  by (simp add: cancelAllChannelTasks_eq)

theorem cancelAll_on_empty_queue_witness:
  "tasksInQueue sampleBusy = [] \<and>
   cancelAllChannelTasks sampleBusy =
     sampleBusy\<lparr>channelLog := channelLog sampleBusy @ [CANCELLED_ALL_TASKS]\<rparr>"
proof -
  have e: "tasksInQueue sampleBusy = []" by code_simp
  from e cancelAll_on_empty_queue [OF e] show ?thesis by simp
qed

text \<open>
  C1, as the claim states it, fails: on a fresh channel (empty queue, empty log)
  \<^verbatim>\<open>cancelAllChannelTasks\<close> delivers one event and so changes what the observer has seen.
\<close>

theorem cancelAll_on_empty_queue_emits:
  "tasksInQueue (createChannel sampleRuntime None) = [] \<and>
   channelLog (createChannel sampleRuntime None) = [] \<and>
   channelLog (cancelAllChannelTasks (createChannel sampleRuntime None)) = [CANCELLED_ALL_TASKS] \<and>
   cancelAllChannelTasks (createChannel sampleRuntime None) \<noteq> createChannel sampleRuntime None"
  by code_simp



text \<open>
  C7. With a non-empty run queue \<^verbatim>\<open>addTaskToChannelIfEmpty\<close> returns a promise already
  resolved with the cancellation result and the channel exactly as it was: nothing
  queued, nothing run, no event, no state changed. With an empty run queue, in-flight
  tasks or not, it is \<^verbatim>\<open>addTaskToChannel\<close>.
\<close>

theorem addTaskToChannelIfEmpty_spec:
  "(tasksInQueue s \<noteq> [] \<longrightarrow>
      addTaskToChannelIfEmpty options now s =
        (PromiseResolved \<lparr>isSuccess = False, isError = False, isCancelation = True,
                           result = JUndefined, error = JUndefined\<rparr>, s)) \<and>
   (tasksInQueue s = [] \<longrightarrow>
      addTaskToChannelIfEmpty options now s = addTaskToChannel options now s)"
  by (simp add: addTaskToChannelIfEmpty_def)

theorem addTaskToChannelIfEmpty_spec_witness:
  "tasksInQueue sampleQueued \<noteq> [] \<and>
   addTaskToChannelIfEmpty (sampleOptions sampleSync) 3 sampleQueued =
     (PromiseResolved \<lparr>isSuccess = False, isError = False, isCancelation = True,
                        result = JUndefined, error = JUndefined\<rparr>, sampleQueued) \<and>
   tasksInQueue sampleBusy = [] \<and> tasksInProgress sampleBusy \<noteq> [] \<and>
   addTaskToChannelIfEmpty (sampleOptions sampleSync) 3 sampleBusy =
     addTaskToChannel (sampleOptions sampleSync) 3 sampleBusy"
proof -
  have q: "tasksInQueue sampleQueued \<noteq> []" by code_simp
  have b: "tasksInQueue sampleBusy = []" by code_simp
  have p: "tasksInProgress sampleBusy \<noteq> []" by code_simp
  show ?thesis
    using q b p addTaskToChannelIfEmpty_spec [of sampleQueued "sampleOptions sampleSync" 3]
      addTaskToChannelIfEmpty_spec [of sampleBusy "sampleOptions sampleSync" 3]
    by blast
qed

text \<open>
  C10. When the first queued task whose function is \<open>f\<close> is \<open>t\<close> (nothing in front of it
  matches), \<^verbatim>\<open>cancelChannelTask\<close> removes that one entry and nothing else, so later
  entries with the same function stay, in their order; it delivers \<^verbatim>\<open>TASK_CANCELLED\<close>
  for \<open>t\<close> alone, to the channel's observer and to the observer and promise of \<open>t\<close>; the
  in-flight tasks are as they were.
\<close>

theorem cancelChannelTask_first_match:
  "tasksInQueue s = xs @ t # ys \<Longrightarrow>
   \<forall>x\<in>set xs. ref (task x) \<noteq> ref f \<Longrightarrow>
   ref (task t) = ref f \<Longrightarrow>
   tasksInQueue (cancelChannelTask f s) = xs @ ys \<and>
   channelLog (cancelChannelTask f s) = channelLog s @ [TASK_CANCELLED t] \<and>
   taskLog (cancelChannelTask f s) = taskLog s @ deliveries t (TASK_CANCELLED t) \<and>
   resolved (cancelChannelTask f s) = resolved s @ resolutions t (TASK_CANCELLED t) \<and>
   tasksInProgress (cancelChannelTask f s) = tasksInProgress s \<and>
   awaiting (cancelChannelTask f s) = awaiting s \<and>
   scheduled (cancelChannelTask f s) = scheduled s"
  by (simp add: cancelChannelTask_found sendEvent_eq)

theorem cancelChannelTask_first_match_witness:
  "map tid (tasksInQueue sampleDuplicates) = [1, 2, 3] \<and>
   map (\<lambda>x. ref (task x) = ref sampleSync) (tasksInQueue sampleDuplicates) = [False, True, True] \<and>
   map tid (tasksInQueue (cancelChannelTask sampleSync sampleDuplicates)) = [1, 3] \<and>
   channelLog (cancelChannelTask sampleSync sampleDuplicates) =
     channelLog sampleDuplicates @ [TASK_CANCELLED (tasksInQueue sampleDuplicates ! 1)] \<and>
   tasksInProgress (cancelChannelTask sampleSync sampleDuplicates) =
     tasksInProgress sampleDuplicates"
proof -
  let ?q = "tasksInQueue sampleDuplicates"
  have ids: "map tid ?q = [1, 2, 3]" by code_simp
  have refs: "map (\<lambda>x. ref (task x) = ref sampleSync) ?q = [False, True, True]" by code_simp
  from ids obtain a b c where q: "?q = [a, b, c]" and t: "tid a = 1" "tid b = 2" "tid c = 3"
    by auto
  from refs q have r: "ref (task a) \<noteq> ref sampleSync" "ref (task b) = ref sampleSync"
    by auto
  have "?q = [a] @ b # [c]" using q by simp
  from cancelChannelTask_first_match [OF this, of sampleSync] r
  have "tasksInQueue (cancelChannelTask sampleSync sampleDuplicates) = [a] @ [c] \<and>
     channelLog (cancelChannelTask sampleSync sampleDuplicates) =
       channelLog sampleDuplicates @ [TASK_CANCELLED b] \<and>
     tasksInProgress (cancelChannelTask sampleSync sampleDuplicates) =
       tasksInProgress sampleDuplicates"
    by simp
  with ids refs q t show ?thesis by simp
qed

subsection \<open>Construction\<close>

text \<open>
  C8. \<^verbatim>\<open>createChannel\<close> called with no argument, with no \<^verbatim>\<open>concurrency\<close> field (or an
  \<^verbatim>\<open>undefined\<close> one) or with \<^verbatim>\<open>concurrency: 0\<close> gives a channel whose concurrency is 1,
  and no call of \<^verbatim>\<open>createChannel\<close> gives a channel whose concurrency is 0.
\<close>

theorem createChannel_concurrency_default:
  "concurrency (createChannel rt None) = 1 \<and>
   concurrency (createChannel rt (Some \<lparr>argConcurrency = None, argEventHandler = h\<rparr>)) = 1 \<and>
   concurrency (createChannel rt (Some \<lparr>argConcurrency = Some 0, argEventHandler = h\<rparr>)) = 1 \<and>
   concurrency (createChannel rt args) \<noteq> 0"
  by (auto simp: createChannel_def split: option.splits)

subsection \<open>The steps of a dispatch, and a proof rule for them\<close>





lemma outcome_cases:
  obtains (async) v where "call (task t) = Returns v" and "isPromise v"
  | (sync) ok err r where "syncOutcome t ok err r"
  by (cases "call (task t)") (auto simp: syncOutcome_def)




lemma length_snd_splice1: "length (snd (splice1 i xs)) \<le> length xs"
  by (simp add: splice1_def Let_def)

lemma taskCompleted_eq:
  "taskCompleted t ok err r s =
     s\<lparr>tasksInProgress :=
         snd (splice1 (findIndex (\<lambda>x. tid x = tid t) (tasksInProgress s)) (tasksInProgress s)),
       channelLog := channelLog s @ [TASK_COMPLETED t ok err r],
       taskLog := taskLog s @ deliveries t (TASK_COMPLETED t ok err r),
       resolved := resolved s @ resolutions t (TASK_COMPLETED t ok err r)\<rparr>"
  by (simp add: taskCompleted_def sendEvent_eq removeTaskFromInProgress_def)

lemma started_eq:
  "started t q s =
     s\<lparr>tasksInQueue := q, tasksInProgress := tasksInProgress s @ [t],
       channelLog := channelLog s @ [TASK_STARTED t],
       taskLog := taskLog s @ deliveries t (TASK_STARTED t),
       resolved := resolved s @ resolutions t (TASK_STARTED t)\<rparr>"
  by (simp add: started_def sendEvent_eq)

lemma enqueued_eq:
  "enqueued options now s =
     s\<lparr>nextId := Suc (nextId s),
       tasksInQueue := sortBy sortChannelQueue (tasksInQueue s @ [newTask options now s]),
       channelLog := channelLog s @ [TASK_ADDED (newTask options now s)],
       taskLog := taskLog s @ deliveries (newTask options now s) (TASK_ADDED (newTask options now s)),
       resolved := resolved s @ resolutions (newTask options now s) (TASK_ADDED (newTask options now s))\<rparr>"
  by (simp add: enqueued_def sendEvent_eq)

lemma settled_eq:
  "settled t ok err r s =
     s\<lparr>awaiting := filter (\<lambda>x. tid x \<noteq> tid t) (awaiting s),
       tasksInProgress :=
         snd (splice1 (findIndex (\<lambda>x. tid x = tid t) (tasksInProgress s)) (tasksInProgress s)),
       channelLog := channelLog s @ [TASK_COMPLETED t ok err r],
       taskLog := taskLog s @ deliveries t (TASK_COMPLETED t ok err r),
       resolved := resolved s @ resolutions t (TASK_COMPLETED t ok err r)\<rparr>"
  by (simp add: settled_def taskCompleted_eq)

subsection \<open>Observers that throw: what a call leaves, and a proof rule\<close>

text \<open>
  A call of \<^verbatim>\<open>sendEvent\<close> returns, leaving the state of the function \<open>sendEvent\<close>, or the
  channel's observer throws, and the task's observer and promise have received nothing, or
  the task's observer throws, and the state is again that of \<open>sendEvent\<close>. So wherever a
  function is left by a throw, the state is one of the intermediate states of the run
  without throws, up to \<open>taskLog\<close> and \<open>resolved\<close>; the proof rule \<open>step_rule\<close> asks
  for the invariant there, and after the second completion of a task whose first
  \<^verbatim>\<open>then\<close> callback threw.
\<close>

lemma frameFreeD: "frameFree P \<Longrightarrow> P s \<Longrightarrow> P (s\<lparr>taskLog := l, resolved := r\<rparr>)"
  by (simp add: frameFree_def)

lemma sendEventExn_cases:
  obtains (returned) "sendEventExn obs t ev s = Normal () (sendEvent t ev s)"
  | (channelThrew) e where
      "sendEventExn obs t ev s =
         Abrupt e ((sendEvent t ev s)\<lparr>taskLog := taskLog s, resolved := resolved s\<rparr>)"
  | (taskThrew) e where "sendEventExn obs t ev s = Abrupt e (sendEvent t ev s)"
proof (cases "if hasEventHandler s then channelThrows obs ev else None")
  case (Some e)
  have "sendEventExn obs t ev s =
         Abrupt e ((sendEvent t ev s)\<lparr>taskLog := taskLog s, resolved := resolved s\<rparr>)"
    using Some
    by (simp add: sendEventExn_def channelEventHandlerExn_def called_def sendEvent_eq
        channelEventHandler_def)
  then show ?thesis by (rule channelThrew)
next
  case None
  show ?thesis
  proof (cases "eventHandler t")
    case n: None
    have "sendEventExn obs t ev s = Normal () (sendEvent t ev s)"
      using None n
      by (simp add: sendEventExn_def channelEventHandlerExn_def called_def sendEvent_def)
    then show ?thesis by (rule returned)
  next
    case (Some h)
    obtain p user where h: "h = SubmitHandler p user" by (cases h)
    show ?thesis
    proof (cases "if user then taskThrows obs ev else None")
      case n: None
      have "sendEventExn obs t ev s = Normal () (sendEvent t ev s)"
        using None Some h n
        by (simp add: sendEventExn_def channelEventHandlerExn_def called_def sendEvent_def
            submitEventHandlerExn_def del: submitEventHandler.simps)
      then show ?thesis by (rule returned)
    next
      case (Some e)
      have "sendEventExn obs t ev s = Abrupt e (sendEvent t ev s)"
        using None \<open>eventHandler t = Some h\<close> h Some
        by (simp add: sendEventExn_def channelEventHandlerExn_def called_def sendEvent_def
            submitEventHandlerExn_def del: submitEventHandler.simps)
      then show ?thesis by (rule taskThrew)
    qed
  qed
qed

lemma runNextTickExn_eq:
  "runNextTickExn f s =
     (if deferred s then Normal () (s\<lparr>scheduled := Suc (scheduled s)\<rparr>) else f s)"
  by (simp add: runNextTickExn_def deferred_def)

lemma proccessChannelExn_idle:
  "concurrency s \<le> of_nat (length (tasksInProgress s)) \<or> tasksInQueue s = [] \<Longrightarrow>
   proccessChannelExn obs s = Normal () s"
  by (auto simp: proccessChannelExn.simps)

lemma proccessChannelExn_cases:
  obtains (idle) "concurrency s \<le> of_nat (length (tasksInProgress s)) \<or> tasksInQueue s = []"
      and "proccessChannelExn obs s = Normal () s"
  | (startThrew) t q e l r where "\<not> concurrency s \<le> of_nat (length (tasksInProgress s))"
      and "tasksInQueue s = t # q"
      and "proccessChannelExn obs s = Abrupt e ((started t q s)\<lparr>taskLog := l, resolved := r\<rparr>)"
  | (awaited) t q v where "\<not> concurrency s \<le> of_nat (length (tasksInProgress s))"
      and "tasksInQueue s = t # q" and "call (task t) = Returns v" and "isPromise v"
      and "proccessChannelExn obs s =
             Normal () ((started t q s)\<lparr>awaiting := awaiting (started t q s) @ [t]\<rparr>)"
  | (endThrew) t q ok err x e l r where "\<not> concurrency s \<le> of_nat (length (tasksInProgress s))"
      and "tasksInQueue s = t # q" and "syncOutcome t ok err x"
      and "proccessChannelExn obs s =
             Abrupt e ((taskCompleted t ok err x (started t q s))\<lparr>taskLog := l, resolved := r\<rparr>)"
  | (completed) t q ok err x where "\<not> concurrency s \<le> of_nat (length (tasksInProgress s))"
      and "tasksInQueue s = t # q" and "syncOutcome t ok err x"
      and "proccessChannelExn obs s =
             runNextTickExn (proccessChannelExn obs) (taskCompleted t ok err x (started t q s))"
proof (cases "concurrency s \<le> of_nat (length (tasksInProgress s)) \<or> tasksInQueue s = []")
  case True
  from True proccessChannelExn_idle [OF True] show ?thesis by (rule idle)
next
  case False
  then obtain t q where room: "\<not> concurrency s \<le> of_nat (length (tasksInProgress s))"
    and queue: "tasksInQueue s = t # q"
    by (cases "tasksInQueue s") auto
  let ?s1 = "s\<lparr>tasksInQueue := q, tasksInProgress := tasksInProgress s @ [t]\<rparr>"
  have st: "sendEvent t (TASK_STARTED t) ?s1 = started t q s" by (simp add: started_def)
  have unfold: "proccessChannelExn obs s =
      andThen (sendEventExn obs t (TASK_STARTED t) ?s1)
        (\<lambda>s2. case call (task t) of
           Throws e \<Rightarrow>
             andThen (sendEventExn obs t (TASK_COMPLETED t False True e)
                        (removeTaskFromInProgress t s2))
               (runNextTickExn (proccessChannelExn obs))
         | Returns v \<Rightarrow>
             if isPromise v then Normal () (s2\<lparr>awaiting := awaiting s2 @ [t]\<rparr>)
             else andThen (sendEventExn obs t (TASK_COMPLETED t True False v)
                             (removeTaskFromInProgress t s2))
                    (runNextTickExn (proccessChannelExn obs)))"
    using room queue by (subst proccessChannelExn.simps) (simp add: Let_def)
  show ?thesis
  proof (cases obs t "TASK_STARTED t" ?s1 rule: sendEventExn_cases)
    case (channelThrew e)
    with unfold st have "proccessChannelExn obs s =
        Abrupt e ((started t q s)\<lparr>taskLog := taskLog s, resolved := resolved s\<rparr>)"
      by simp
    with room queue show ?thesis by (rule startThrew)
  next
    case (taskThrew e)
    with unfold st have "proccessChannelExn obs s =
        Abrupt e ((started t q s)\<lparr>taskLog := taskLog (started t q s),
          resolved := resolved (started t q s)\<rparr>)"
      by simp
    with room queue show ?thesis by (rule startThrew)
  next
    case returned
    show ?thesis
    proof (cases t rule: outcome_cases)
      case (async v)
      with unfold returned st have "proccessChannelExn obs s =
          Normal () ((started t q s)\<lparr>awaiting := awaiting (started t q s) @ [t]\<rparr>)"
        by simp
      with room queue async show ?thesis by (rule_tac awaited)
    next
      case (sync ok err x)
      let ?s2 = "started t q s"
      have unfold': "proccessChannelExn obs s =
          andThen (sendEventExn obs t (TASK_COMPLETED t ok err x) (removeTaskFromInProgress t ?s2))
            (runNextTickExn (proccessChannelExn obs))"
        using unfold returned st sync by (auto simp: syncOutcome_def)
      have tc: "sendEvent t (TASK_COMPLETED t ok err x) (removeTaskFromInProgress t ?s2) =
          taskCompleted t ok err x ?s2"
        by (simp add: taskCompleted_def)
      show ?thesis
      proof (cases obs t "TASK_COMPLETED t ok err x" "removeTaskFromInProgress t ?s2"
          rule: sendEventExn_cases)
        case returned
        with unfold' tc have "proccessChannelExn obs s =
            runNextTickExn (proccessChannelExn obs) (taskCompleted t ok err x ?s2)"
          by simp
        with room queue sync show ?thesis by (rule_tac completed)
      next
        case (channelThrew e)
        with unfold' tc have "proccessChannelExn obs s =
            Abrupt e ((taskCompleted t ok err x ?s2)\<lparr>taskLog := taskLog ?s2, resolved := resolved ?s2\<rparr>)"
          by (simp add: removeTaskFromInProgress_def)
        with room queue sync show ?thesis by (rule_tac endThrew)
      next
        case (taskThrew e)
        with unfold' tc have "proccessChannelExn obs s =
            Abrupt e ((taskCompleted t ok err x ?s2)\<lparr>taskLog := taskLog (taskCompleted t ok err x ?s2),
               resolved := resolved (taskCompleted t ok err x ?s2)\<rparr>)"
          by simp
        with room queue sync show ?thesis by (rule_tac endThrew)
      qed
    qed
  qed
qed


lemma proccessChannelExn_rule:
  assumes pre: "Pre s"
    and frame: "frameFree Post"
    and resting: "\<And>s. Pre s \<Longrightarrow>
        concurrency s \<le> of_nat (length (tasksInProgress s)) \<or> tasksInQueue s = [] \<Longrightarrow> Post s"
    and starting: "\<And>s t q. Pre s \<Longrightarrow> \<not> concurrency s \<le> of_nat (length (tasksInProgress s)) \<Longrightarrow>
        tasksInQueue s = t # q \<Longrightarrow> Mid t (started t q s)"
    and registering: "\<And>s t v. Mid t s \<Longrightarrow> call (task t) = Returns v \<Longrightarrow> isPromise v \<Longrightarrow>
        Post (s\<lparr>awaiting := awaiting s @ [t]\<rparr>)"
    and completing: "\<And>s t ok err r. Mid t s \<Longrightarrow> syncOutcome t ok err r \<Longrightarrow>
        Fin (taskCompleted t ok err r s)"
    and deferring: "\<And>s. Fin s \<Longrightarrow> deferred s \<Longrightarrow> Post (s\<lparr>scheduled := Suc (scheduled s)\<rparr>)"
    and recurring: "\<And>s. Fin s \<Longrightarrow> \<not> deferred s \<Longrightarrow> Pre s"
    and startThrown: "\<And>s t. Mid t s \<Longrightarrow> Post s"
    and endThrown: "\<And>s. Fin s \<Longrightarrow> Post s"
  shows "Post (stateOf (proccessChannelExn obs s))"
  using pre
proof (induction "length (tasksInQueue s)" arbitrary: s rule: less_induct)
  case less
  show ?case
  proof (cases rule: proccessChannelExn_cases [where s = s and obs = obs])
    case idle
    with resting [OF less.prems] show ?thesis by simp
  next
    case (startThrew t q e l r)
    from starting [OF less.prems startThrew(1,2)] have "Post (started t q s)"
      by (rule startThrown)
    with frame startThrew(3) show ?thesis by (simp add: frameFreeD)
  next
    case (awaited t q v)
    from starting [OF less.prems awaited(1,2)] awaited(3,4)
    have "Post ((started t q s)\<lparr>awaiting := awaiting (started t q s) @ [t]\<rparr>)"
      by (rule registering)
    with awaited(5) show ?thesis by simp
  next
    case (endThrew t q ok err x e l r)
    from starting [OF less.prems endThrew(1,2)] endThrew(3)
    have "Fin (taskCompleted t ok err x (started t q s))" by (rule completing)
    then have "Post (taskCompleted t ok err x (started t q s))" by (rule endThrown)
    with frame endThrew(4) show ?thesis by (simp add: frameFreeD)
  next
    case (completed t q ok err x)
    let ?s3 = "taskCompleted t ok err x (started t q s)"
    from starting [OF less.prems completed(1,2)] completed(3)
    have fin: "Fin ?s3" by (rule completing)
    show ?thesis
    proof (cases "deferred ?s3")
      case True
      with deferring [OF fin] completed(4) show ?thesis by (simp add: runNextTickExn_eq)
    next
      case False
      have "Pre ?s3" by (rule recurring [OF fin False])
      moreover have "length (tasksInQueue ?s3) < length (tasksInQueue s)"
        using completed(2) by (simp add: started_eq)
      ultimately have "Post (stateOf (proccessChannelExn obs ?s3))" by (rule less.hyps [rotated])
      with completed(4) False show ?thesis by (simp add: runNextTickExn_eq)
    qed
  qed
qed

lemma addTaskToChannelExn_eq:
  "addTaskToChannelExn obs options now s =
     andThen (sendEventExn obs (newTask options now s) (TASK_ADDED (newTask options now s))
                (s\<lparr>nextId := Suc (nextId s),
                   tasksInQueue := sortBy sortChannelQueue (tasksInQueue s @ [newTask options now s])\<rparr>))
       (\<lambda>s4. andThen (proccessChannelExn obs s4) (\<lambda>s5. Normal (ResultPromise (nextId s)) s5))"
  by (simp add: addTaskToChannelExn_def newTask_def Let_def)

lemma stateOf_andThen_Normal [simp]: "stateOf (andThen r (Normal x)) = stateOf r"
  by (cases r) simp_all

lemma stateOf_returned [simp]: "stateOf (returned r) = stateOf r"
  by (cases r) simp_all

lemma addTaskToChannelExn_cases:
  obtains (addThrew) e l r where
      "addTaskToChannelExn obs options now s =
         Abrupt e ((enqueued options now s)\<lparr>taskLog := l, resolved := r\<rparr>)"
  | (added) "stateOf (addTaskToChannelExn obs options now s) =
         stateOf (proccessChannelExn obs (enqueued options now s))"
      and "addTaskToChannelExn obs options now s =
         andThen (proccessChannelExn obs (enqueued options now s))
           (\<lambda>s5. Normal (ResultPromise (nextId s)) s5)"
proof -
  let ?t = "newTask options now s"
  let ?s3 = "s\<lparr>nextId := Suc (nextId s),
     tasksInQueue := sortBy sortChannelQueue (tasksInQueue s @ [?t])\<rparr>"
  have en: "sendEvent ?t (TASK_ADDED ?t) ?s3 = enqueued options now s"
    by (simp add: enqueued_def)
  show ?thesis
  proof (cases obs ?t "TASK_ADDED ?t" ?s3 rule: sendEventExn_cases)
    case returned
    with en have eq: "addTaskToChannelExn obs options now s =
         andThen (proccessChannelExn obs (enqueued options now s))
           (\<lambda>s5. Normal (ResultPromise (nextId s)) s5)"
      by (simp add: addTaskToChannelExn_eq)
    then have "stateOf (addTaskToChannelExn obs options now s) =
         stateOf (proccessChannelExn obs (enqueued options now s))"
      by simp
    then show ?thesis using eq by (rule added)
  next
    case (channelThrew e)
    with en have "addTaskToChannelExn obs options now s =
         Abrupt e ((enqueued options now s)\<lparr>taskLog := taskLog ?s3, resolved := resolved ?s3\<rparr>)"
      by (simp add: addTaskToChannelExn_eq)
    then show ?thesis by (rule addThrew)
  next
    case (taskThrew e)
    with en have "addTaskToChannelExn obs options now s =
         Abrupt e ((enqueued options now s)\<lparr>taskLog := taskLog (enqueued options now s),
           resolved := resolved (enqueued options now s)\<rparr>)"
      by (simp add: addTaskToChannelExn_eq)
    then show ?thesis by (rule addThrew)
  qed
qed

lemma forEach_cancel_cases:
  obtains (all) "forEach (\<lambda>t. sendEventExn obs t (TASK_CANCELLED t)) ts s =
      Normal () (fold (\<lambda>t. sendEvent t (TASK_CANCELLED t)) ts s)"
  | (some) e ts' l r where "prefix ts' ts"
      and "forEach (\<lambda>t. sendEventExn obs t (TASK_CANCELLED t)) ts s =
        Abrupt e (s\<lparr>channelLog := channelLog s @ map TASK_CANCELLED ts', taskLog := l, resolved := r\<rparr>)"
proof (induction ts arbitrary: s thesis)
  case Nil
  show ?case by (rule Nil(1)) simp
next
  case (Cons t ts)
  show ?case
  proof (cases obs t "TASK_CANCELLED t" s rule: sendEventExn_cases)
    case (channelThrew e)
    have "prefix [t] (t # ts)" by simp
    moreover have "forEach (\<lambda>t. sendEventExn obs t (TASK_CANCELLED t)) (t # ts) s =
        Abrupt e (s\<lparr>channelLog := channelLog s @ map TASK_CANCELLED [t],
          taskLog := taskLog s, resolved := resolved s\<rparr>)"
      using channelThrew by (simp add: sendEvent_eq)
    ultimately show ?thesis by (rule Cons(3))
  next
    case (taskThrew e)
    have "prefix [t] (t # ts)" by simp
    moreover have "forEach (\<lambda>t. sendEventExn obs t (TASK_CANCELLED t)) (t # ts) s =
        Abrupt e (s\<lparr>channelLog := channelLog s @ map TASK_CANCELLED [t],
          taskLog := taskLog s @ deliveries t (TASK_CANCELLED t),
          resolved := resolved s @ resolutions t (TASK_CANCELLED t)\<rparr>)"
      using taskThrew by (simp add: sendEvent_eq)
    ultimately show ?thesis by (rule Cons(3))
  next
    case returned
    let ?s1 = "sendEvent t (TASK_CANCELLED t) s"
    show ?thesis
    proof (rule Cons.IH [of ?s1])
      assume "forEach (\<lambda>t. sendEventExn obs t (TASK_CANCELLED t)) ts ?s1 =
        Normal () (fold (\<lambda>t. sendEvent t (TASK_CANCELLED t)) ts ?s1)"
      with returned have "forEach (\<lambda>t. sendEventExn obs t (TASK_CANCELLED t)) (t # ts) s =
        Normal () (fold (\<lambda>t. sendEvent t (TASK_CANCELLED t)) (t # ts) s)"
        by simp
      then show ?thesis by (rule Cons(2))
    next
      fix e ts' l r
      assume p: "prefix ts' ts"
        and eq: "forEach (\<lambda>t. sendEventExn obs t (TASK_CANCELLED t)) ts ?s1 =
          Abrupt e (?s1\<lparr>channelLog := channelLog ?s1 @ map TASK_CANCELLED ts',
            taskLog := l, resolved := r\<rparr>)"
      from p have "prefix (t # ts') (t # ts)" by simp
      moreover from returned eq
      have "forEach (\<lambda>t. sendEventExn obs t (TASK_CANCELLED t)) (t # ts) s =
        Abrupt e (s\<lparr>channelLog := channelLog s @ map TASK_CANCELLED (t # ts'),
          taskLog := l, resolved := r\<rparr>)"
        by (simp add: sendEvent_eq)
      ultimately show ?thesis by (rule Cons(3))
    qed
  qed
qed

lemma cancelAllChannelTasksExn_cases:
  obtains (cancelled) "cancelAllChannelTasksExn obs s = Normal () (cancelAllChannelTasks s)"
  | (cancelThrew) e ts l r where "prefix ts (tasksInQueue s)"
      and "cancelAllChannelTasksExn obs s =
        Abrupt e (s\<lparr>tasksInQueue := [],
          channelLog := channelLog s @ CANCELLED_ALL_TASKS # map TASK_CANCELLED ts,
          taskLog := l, resolved := r\<rparr>)"
proof (cases "if hasEventHandler s then channelThrows obs CANCELLED_ALL_TASKS else None")
  case (Some e)
  have "prefix [] (tasksInQueue s)" by simp
  moreover have "cancelAllChannelTasksExn obs s =
        Abrupt e (s\<lparr>tasksInQueue := [],
          channelLog := channelLog s @ CANCELLED_ALL_TASKS # map TASK_CANCELLED [],
          taskLog := taskLog s, resolved := resolved s\<rparr>)"
    using Some
    by (simp add: cancelAllChannelTasksExn_def channelEventHandlerExn_def called_def
        channelEventHandler_def Let_def)
  ultimately show ?thesis by (rule cancelThrew)
next
  case None
  let ?s2 = "channelEventHandler CANCELLED_ALL_TASKS (s\<lparr>tasksInQueue := []\<rparr>)"
  have eq: "cancelAllChannelTasksExn obs s =
      forEach (\<lambda>t. sendEventExn obs t (TASK_CANCELLED t)) (tasksInQueue s) ?s2"
    using None
    by (simp add: cancelAllChannelTasksExn_def channelEventHandlerExn_def called_def Let_def)
  show ?thesis
  proof (cases obs "tasksInQueue s" ?s2 rule: forEach_cancel_cases)
    case all
    with eq have "cancelAllChannelTasksExn obs s = Normal () (cancelAllChannelTasks s)"
      by (simp add: cancelAllChannelTasks_def Let_def)
    then show ?thesis by (rule cancelled)
  next
    case (some e ts' l r)
    from some(1) have "prefix ts' (tasksInQueue s)" .
    moreover from some(2) eq have "cancelAllChannelTasksExn obs s =
        Abrupt e (s\<lparr>tasksInQueue := [],
          channelLog := channelLog s @ CANCELLED_ALL_TASKS # map TASK_CANCELLED ts',
          taskLog := l, resolved := r\<rparr>)"
      by (simp add: channelEventHandler_def)
    ultimately show ?thesis by (rule cancelThrew)
  qed
qed

lemma cancelChannelTaskExn_cases:
  obtains (absent) "cancelChannelTaskExn obs f s = Normal () s"
  | (found) xs t ys l r where "tasksInQueue s = xs @ t # ys"
      and "\<forall>x\<in>set xs. ref (task x) \<noteq> ref f" and "ref (task t) = ref f"
      and "stateOf (cancelChannelTaskExn obs f s) =
        (sendEvent t (TASK_CANCELLED t) (s\<lparr>tasksInQueue := xs @ ys\<rparr>))\<lparr>taskLog := l, resolved := r\<rparr>"
proof (cases "\<exists>x\<in>set (tasksInQueue s). ref (task x) = ref f")
  case False
  then have "cancelChannelTaskExn obs f s = Normal () s"
    by (simp add: cancelChannelTaskExn_def Let_def findIndex_none)
  then show ?thesis by (rule absent)
next
  case True
  then obtain xs t ys where q: "tasksInQueue s = xs @ t # ys" and t: "ref (task t) = ref f"
    and xs: "\<forall>x\<in>set xs. ref (task x) \<noteq> ref f"
    using split_list_first_prop [of "tasksInQueue s" "\<lambda>x. ref (task x) = ref f"] by auto
  let ?s1 = "s\<lparr>tasksInQueue := xs @ ys\<rparr>"
  have eq: "cancelChannelTaskExn obs f s = sendEventExn obs t (TASK_CANCELLED t) ?s1"
    using q xs t findIndex_first [of xs "\<lambda>x. ref (task x) = ref f" t ys]
    by (simp add: cancelChannelTaskExn_def Let_def splice1_at)
  have "\<exists>l r. stateOf (cancelChannelTaskExn obs f s) =
      (sendEvent t (TASK_CANCELLED t) ?s1)\<lparr>taskLog := l, resolved := r\<rparr>"
  proof (cases obs t "TASK_CANCELLED t" ?s1 rule: sendEventExn_cases)
    case returned
    with eq have "stateOf (cancelChannelTaskExn obs f s) =
      (sendEvent t (TASK_CANCELLED t) ?s1)\<lparr>taskLog := taskLog (sendEvent t (TASK_CANCELLED t) ?s1),
         resolved := resolved (sendEvent t (TASK_CANCELLED t) ?s1)\<rparr>"
      by simp
    then show ?thesis by blast
  next
    case (channelThrew e)
    with eq show ?thesis by auto
  next
    case (taskThrew e)
    with eq have "stateOf (cancelChannelTaskExn obs f s) =
      (sendEvent t (TASK_CANCELLED t) ?s1)\<lparr>taskLog := taskLog (sendEvent t (TASK_CANCELLED t) ?s1),
         resolved := resolved (sendEvent t (TASK_CANCELLED t) ?s1)\<rparr>"
      by simp
    then show ?thesis by blast
  qed
  then obtain l r where "stateOf (cancelChannelTaskExn obs f s) =
      (sendEvent t (TASK_CANCELLED t) ?s1)\<lparr>taskLog := l, resolved := r\<rparr>"
    by blast
  with q xs t show ?thesis by (rule found)
qed


lemma callback_rule:
  assumes fin: "Fin (taskCompleted t ok err r s)"
    and pc: "\<And>s. Pre s \<Longrightarrow> Post (stateOf (proccessChannelExn obs s))"
    and frame: "frameFree Post"
    and deferring: "\<And>s. Fin s \<Longrightarrow> deferred s \<Longrightarrow> Post (s\<lparr>scheduled := Suc (scheduled s)\<rparr>)"
    and recurring: "\<And>s. Fin s \<Longrightarrow> \<not> deferred s \<Longrightarrow> Pre s"
    and endThrown: "\<And>s. Fin s \<Longrightarrow> Post s"
  shows "Post (stateOf (andThen (sendEventExn obs t (TASK_COMPLETED t ok err r)
                                   (removeTaskFromInProgress t s))
                          (runNextTickExn (proccessChannelExn obs))))"
proof -
  let ?s3 = "taskCompleted t ok err r s"
  have tc: "sendEvent t (TASK_COMPLETED t ok err r) (removeTaskFromInProgress t s) = ?s3"
    by (simp add: taskCompleted_def)
  show ?thesis
  proof (cases obs t "TASK_COMPLETED t ok err r" "removeTaskFromInProgress t s"
      rule: sendEventExn_cases)
    case returned
    show ?thesis
    proof (cases "deferred ?s3")
      case True
      with deferring [OF fin] returned tc show ?thesis by (simp add: runNextTickExn_eq)
    next
      case False
      from pc [OF recurring [OF fin False]] returned tc False show ?thesis
        by (simp add: runNextTickExn_eq)
    qed
  next
    case (channelThrew e)
    with frameFreeD [OF frame endThrown [OF fin]] tc show ?thesis by simp
  next
    case (taskThrew e)
    with endThrown [OF fin] tc show ?thesis by simp
  qed
qed

lemma step_rule:
  assumes inv: "Inv s"
    and frame: "frameFree Post"
    and weaken: "\<And>s. Inv s \<Longrightarrow> Post s"
    and enqueue: "\<And>s options now. Inv s \<Longrightarrow> stamp a = Some now \<Longrightarrow> Pre (enqueued options now s)"
    and cancelAll: "\<And>s. Inv s \<Longrightarrow> Inv (cancelAllChannelTasks s)"
    and cancelSome: "\<And>s ts. Inv s \<Longrightarrow> prefix ts (tasksInQueue s) \<Longrightarrow>
        Post (s\<lparr>tasksInQueue := [],
                channelLog := channelLog s @ CANCELLED_ALL_TASKS # map TASK_CANCELLED ts\<rparr>)"
    and cancelOne: "\<And>s xs t ys. Inv s \<Longrightarrow> tasksInQueue s = xs @ t # ys \<Longrightarrow>
        Post (sendEvent t (TASK_CANCELLED t) (s\<lparr>tasksInQueue := xs @ ys\<rparr>))"
    and ticking: "\<And>s. Inv s \<Longrightarrow> 0 < scheduled s \<Longrightarrow> Pre (s\<lparr>scheduled := scheduled s - 1\<rparr>)"
    and settling: "\<And>s t ok err r. Inv s \<Longrightarrow> t \<in> set (awaiting s) \<Longrightarrow>
        asyncOutcome t ok err r \<Longrightarrow> Fin (settled t ok err r s)"
    and resting: "\<And>s. Pre s \<Longrightarrow>
        concurrency s \<le> of_nat (length (tasksInProgress s)) \<or> tasksInQueue s = [] \<Longrightarrow> Post s"
    and starting: "\<And>s t q. Pre s \<Longrightarrow> \<not> concurrency s \<le> of_nat (length (tasksInProgress s)) \<Longrightarrow>
        tasksInQueue s = t # q \<Longrightarrow> Mid t (started t q s)"
    and registering: "\<And>s t v. Mid t s \<Longrightarrow> call (task t) = Returns v \<Longrightarrow> isPromise v \<Longrightarrow>
        Post (s\<lparr>awaiting := awaiting s @ [t]\<rparr>)"
    and completing: "\<And>s t ok err r. Mid t s \<Longrightarrow> syncOutcome t ok err r \<Longrightarrow>
        Fin (taskCompleted t ok err r s)"
    and deferring: "\<And>s. Fin s \<Longrightarrow> deferred s \<Longrightarrow> Post (s\<lparr>scheduled := Suc (scheduled s)\<rparr>)"
    and recurring: "\<And>s. Fin s \<Longrightarrow> \<not> deferred s \<Longrightarrow> Pre s"
    and addThrown: "\<And>s. Pre s \<Longrightarrow> Post s"
    and startThrown: "\<And>s t. Mid t s \<Longrightarrow> Post s"
    and endThrown: "\<And>s. Fin s \<Longrightarrow> Post s"
    and rethrown: "\<And>s t r. Post s \<Longrightarrow> Fin (taskCompleted t False True r s)"
  shows "Post (step obs a s)"
proof -
  have pc: "Post (stateOf (proccessChannelExn obs s))" if "Pre s" for s
    using that frame resting starting registering completing deferring recurring
      startThrown endThrown
    by (rule proccessChannelExn_rule [where Pre = Pre and Mid = Mid and Fin = Fin])
  have cb: "Post (stateOf (andThen (sendEventExn obs t (TASK_COMPLETED t ok err r)
                                   (removeTaskFromInProgress t s))
                          (runNextTickExn (proccessChannelExn obs))))"
    if "Fin (taskCompleted t ok err r s)" for t ok err r s
    using that pc frame deferring recurring endThrown
    by (rule callback_rule [where Pre = Pre and Fin = Fin])
  have add: "Post (stateOf (addTaskToChannelExn obs options now s))"
    if "Inv s" "stamp a = Some now" for s options now
  proof (cases obs options now s rule: addTaskToChannelExn_cases)
    case (addThrew e l r)
    from addThrown [OF enqueue [OF that]] frame addThrew show ?thesis
      by (simp add: frameFreeD)
  next
    case added
    with pc [OF enqueue [OF that]] show ?thesis by simp
  qed
  have cancel: "Post (stateOf (cancelAllChannelTasksExn obs s))" if "Inv s" for s
  proof (cases obs s rule: cancelAllChannelTasksExn_cases)
    case cancelled
    with weaken [OF cancelAll [OF that]] show ?thesis by simp
  next
    case (cancelThrew e ts l r)
    from frameFreeD [OF frame cancelSome [OF that cancelThrew(1)], where l = l and r = r] cancelThrew(2)
    show ?thesis by simp
  qed
  show ?thesis
  proof (cases a)
    case (Submit options now)
    then show ?thesis using add [OF inv] by (simp add: step_def)
  next
    case (SubmitExclusive options now)
    show ?thesis
    proof (cases "tasksInQueue s = []")
      case True
      with SubmitExclusive add [OF inv] show ?thesis
        by (simp add: step_def addTaskToChannelExclusivelyExn_def)
    next
      case False
      show ?thesis
      proof (cases obs s rule: cancelAllChannelTasksExn_cases)
        case cancelled
        with SubmitExclusive False add [OF cancelAll [OF inv]] show ?thesis
          by (simp add: step_def addTaskToChannelExclusivelyExn_def)
      next
        case (cancelThrew e ts l r)
        with SubmitExclusive False cancel [OF inv] show ?thesis
          by (simp add: step_def addTaskToChannelExclusivelyExn_def)
      qed
    qed
  next
    case (SubmitIfIdle options now)
    then show ?thesis using add [OF inv] weaken [OF inv]
      by (simp add: step_def addTaskToChannelIfEmptyExn_def)
  next
    case CancelAll
    then show ?thesis using cancel [OF inv] by (simp add: step_def)
  next
    case (CancelOne f)
    show ?thesis
    proof (cases obs f s rule: cancelChannelTaskExn_cases)
      case absent
      with CancelOne weaken [OF inv] show ?thesis by (simp add: step_def)
    next
      case (found xs t ys l r)
      from frameFreeD [OF frame cancelOne [OF inv found(1)], where l = l and r = r] found(4) CancelOne
      show ?thesis by (simp add: step_def)
    qed
  next
    case Tick
    show ?thesis
    proof (cases "scheduled s = 0")
      case True
      with Tick weaken [OF inv] show ?thesis by (simp add: step_def tick_def)
    next
      case False
      then have "Pre (s\<lparr>scheduled := scheduled s - 1\<rparr>)" using ticking [OF inv] by simp
      with Tick False show ?thesis by (simp add: step_def tick_def pc)
    qed
  next
    case (Settle i)
    show ?thesis
    proof (cases "filter (\<lambda>t. tid t = i) (awaiting s)")
      case Nil
      with Settle weaken [OF inv] show ?thesis by (simp add: step_def settle_def)
    next
      case (Cons t ts)
      then have "t \<in> set (filter (\<lambda>t. tid t = i) (awaiting s))" by simp
      then have mem: "t \<in> set (awaiting s)" and i: "tid t = i" by auto
      let ?s0 = "s\<lparr>awaiting := filter (\<lambda>x. tid x \<noteq> i) (awaiting s)\<rparr>"
      have s0: "taskCompleted t ok err r ?s0 = settled t ok err r s" for ok err r
        using i by (simp add: settled_def)
      have rej: "Post (stateOf (onRejected obs t e s'))" if "Post s'" for e s'
        unfolding onRejected_def by (rule cb [OF rethrown [OF that]])
      show ?thesis
      proof (cases "settles (task t)")
        case NeverSettles
        with Settle Cons weaken [OF inv] show ?thesis by (simp add: step_def settle_def)
      next
        case (Rejects e)
        then have "asyncOutcome t False True e" by (simp add: asyncOutcome_def)
        from settling [OF inv mem this] have "Fin (taskCompleted t False True e ?s0)"
          by (simp add: s0)
        from cb [OF this] Settle Cons Rejects show ?thesis
          by (simp add: step_def settle_def thenCatch_def onRejected_def)
      next
        case (Fulfils v)
        then have "asyncOutcome t True False v" by (simp add: asyncOutcome_def)
        from settling [OF inv mem this] have "Fin (taskCompleted t True False v ?s0)"
          by (simp add: s0)
        from cb [OF this] have post: "Post (stateOf (onFulfilled obs t v ?s0))"
          by (simp add: onFulfilled_def)
        have eq: "step obs a s =
            (case onFulfilled obs t v ?s0 of
               Normal x s' \<Rightarrow> s'
             | Abrupt e s' \<Rightarrow> stateOf (onRejected obs t e s'))"
          using Settle Cons Fulfils by (simp add: step_def settle_def thenCatch_def)
        show ?thesis
        proof (cases "onFulfilled obs t v ?s0")
          case (Normal x s')
          with post eq show ?thesis by simp
        next
          case (Abrupt e s')
          with post have "Post s'" by simp
          from rej [OF this] Abrupt eq show ?thesis by simp
        qed
      qed
    qed
  qed
qed

lemma run_snoc: "run obs s (acts @ [a]) = step obs a (run obs s acts)"
  by (simp add: run_def)

lemma run_Nil: "run obs s [] = s"
  by (simp add: run_def)

subsection \<open>Observers that return\<close>












subsection \<open>The concurrency limit\<close>

lemma integer_room:
  fixes c :: rat
  assumes "c \<in> \<int>" and "\<not> c \<le> of_nat n"
  shows "of_nat (Suc n) \<le> c"
proof -
  from assms(1) obtain z :: int where c: "c = of_int z" by (rule Ints_cases)
  have n: "(of_nat n :: rat) = of_int (int n)" by simp
  from assms(2) have "(of_int (int n) :: rat) < of_int z" unfolding c n by (simp only: not_le)
  then have "int n < z" by (simp only: of_int_less_iff)
  then have "int (Suc n) \<le> z" by simp
  then have "(of_int (int (Suc n)) :: rat) \<le> of_int z" by (simp only: of_int_le_iff)
  moreover have "(of_nat (Suc n) :: rat) = of_int (int (Suc n))" by (simp only: of_int_of_nat_eq)
  ultimately show ?thesis by (simp only: c)
qed

lemma bounded_step:
  assumes "c \<in> \<int>" and "bounded c s"
  shows "bounded c (step obs a s)"
proof (rule step_rule [where Inv = "bounded c" and Pre = "bounded c" and Fin = "bounded c"
      and Mid = "\<lambda>t. bounded c" and Post = "bounded c"])
  show "bounded c s" by fact
next
  show "frameFree (bounded c)" by (simp add: frameFree_def bounded_def)
next
  fix s t ok err r
  assume "bounded c s"
  then show "bounded c (settled t ok err r s)"
    using length_snd_splice1 [of "findIndex (\<lambda>x. tid x = tid t) (tasksInProgress s)" "tasksInProgress s"]
    by (simp add: bounded_def settled_eq)
next
  fix s t ok err r
  assume "bounded c s"
  then show "bounded c (taskCompleted t ok err r s)"
    using length_snd_splice1 [of "findIndex (\<lambda>x. tid x = tid t) (tasksInProgress s)" "tasksInProgress s"]
    by (simp add: bounded_def taskCompleted_eq)
next
  fix s t r
  assume "bounded c s"
  then show "bounded c (taskCompleted t False True r s)"
    using length_snd_splice1 [of "findIndex (\<lambda>x. tid x = tid t) (tasksInProgress s)" "tasksInProgress s"]
    by (simp add: bounded_def taskCompleted_eq)
next
  fix s t q
  assume "bounded c s" and "\<not> concurrency s \<le> of_nat (length (tasksInProgress s))"
  with integer_room [OF assms(1), of "length (tasksInProgress s)"]
  show "bounded c (started t q s)"
    by (simp add: bounded_def started_eq)
qed (auto simp: bounded_def enqueued_eq cancelAllChannelTasks_eq sendEvent_eq)

lemma bounded_run: "c \<in> \<int> \<Longrightarrow> bounded c s \<Longrightarrow> bounded c (run obs s acts)"
  by (induction acts rule: rev_induct) (simp_all add: run_Nil run_snoc bounded_step)

text \<open>
  C2, for the limits that are integers. A channel created with a concurrency that is a
  positive integer keeps that concurrency, and after any sequence of interface calls,
  callback firings and promise settlements, whatever the observers do, the number of
  in-flight tasks is at most it. Every single step (\<^verbatim>\<open>addTaskToChannel\<close>,
  \<^verbatim>\<open>addTaskToChannelExclusively\<close>, \<^verbatim>\<open>addTaskToChannelIfEmpty\<close>, \<^verbatim>\<open>cancelAllChannelTasks\<close>,
  \<^verbatim>\<open>cancelChannelTask\<close>, a dispatch from a queued callback, a settlement) preserves the
  bound, from any state with an integer limit in which it holds; and in the state in
  which \<^verbatim>\<open>proccessChannel\<close> calls the task function, just after its push, the bound holds
  as well.
\<close>

theorem inFlight_bounded:
  "(concurrency (createChannel rt args) \<in> \<int> \<and> 0 < concurrency (createChannel rt args) \<longrightarrow>
      concurrency (run obs (createChannel rt args) acts) = concurrency (createChannel rt args) \<and>
      of_nat (length (tasksInProgress (run obs (createChannel rt args) acts)))
        \<le> concurrency (createChannel rt args)) \<and>
   (concurrency s \<in> \<int> \<and> of_nat (length (tasksInProgress s)) \<le> concurrency s \<longrightarrow>
      concurrency (step obs a s) = concurrency s \<and>
      of_nat (length (tasksInProgress (step obs a s))) \<le> concurrency s) \<and>
   (concurrency s \<in> \<int> \<and> \<not> concurrency s \<le> of_nat (length (tasksInProgress s)) \<longrightarrow>
      of_nat (length (tasksInProgress (started t q s))) \<le> concurrency (started t q s))"
proof -
  have one: "bounded (concurrency (createChannel rt args)) (run obs (createChannel rt args) acts)"
    if "concurrency (createChannel rt args) \<in> \<int>" and "0 < concurrency (createChannel rt args)"
    using that(1) by (rule bounded_run) (use that(2) in \<open>simp add: bounded_def createChannel_def\<close>)
  have two: "bounded (concurrency s) (step obs a s)"
    if "concurrency s \<in> \<int>" and "of_nat (length (tasksInProgress s)) \<le> concurrency s"
    using that(1) by (rule bounded_step) (use that(2) in \<open>simp add: bounded_def\<close>)
  have three: "of_nat (length (tasksInProgress (started t q s))) \<le> concurrency (started t q s)"
    if "concurrency s \<in> \<int>" and "\<not> concurrency s \<le> of_nat (length (tasksInProgress s))"
    using integer_room [OF that] by (simp add: started_eq)
  from one two three show ?thesis unfolding bounded_def by blast
qed

theorem inFlight_bounded_witness:
  "concurrency sampleTwoSlots \<in> \<int> \<and> 0 < concurrency sampleTwoSlots \<and>
   concurrency (run taskObserverThrows sampleTwoSlots
     [Submit (sampleOptions sampleAsync) 0, Submit (sampleOptions sampleAsync) 1,
      Submit (sampleOptions sampleAsync) 2, Settle 1, Tick]) = 2 \<and>
   of_nat (length (tasksInProgress (run taskObserverThrows sampleTwoSlots
     [Submit (sampleOptions sampleAsync) 0, Submit (sampleOptions sampleAsync) 1,
      Submit (sampleOptions sampleAsync) 2, Settle 1, Tick]))) \<le> concurrency sampleTwoSlots \<and>
   length (tasksInProgress (run silent sampleTwoSlots
     [Submit (sampleOptions sampleAsync) 0, Submit (sampleOptions sampleAsync) 1,
      Submit (sampleOptions sampleAsync) 2, Settle 1, Tick])) = 2 \<and>
   concurrency sampleQueued \<in> \<int> \<and>
   of_nat (length (tasksInProgress sampleQueued)) \<le> concurrency sampleQueued \<and>
   concurrency (step silent (Submit (sampleOptions sampleAsync) 3) sampleQueued) =
     concurrency sampleQueued \<and>
   of_nat (length (tasksInProgress (step silent (Submit (sampleOptions sampleAsync) 3) sampleQueued)))
     \<le> concurrency sampleQueued \<and>
   concurrency (createChannel sampleRuntime None) \<in> \<int> \<and>
   \<not> concurrency (createChannel sampleRuntime None)
      \<le> of_nat (length (tasksInProgress (createChannel sampleRuntime None))) \<and>
   of_nat (length (tasksInProgress (started sampleThrowingTask [] (createChannel sampleRuntime None))))
     \<le> concurrency (started sampleThrowingTask [] (createChannel sampleRuntime None))"
proof -
  let ?acts = "[Submit (sampleOptions sampleAsync) 0, Submit (sampleOptions sampleAsync) 1,
      Submit (sampleOptions sampleAsync) 2, Settle 1, Tick]"
  have c: "concurrency sampleTwoSlots = 2" by (simp add: sampleTwoSlots_def createChannel_def)
  then have i: "concurrency sampleTwoSlots \<in> \<int>" and p: "0 < concurrency sampleTwoSlots"
    by simp_all
  have full: "length (tasksInProgress (run silent sampleTwoSlots ?acts)) = 2" by code_simp
  have "concurrency sampleQueued = 1" by code_simp
  then have iq: "concurrency sampleQueued \<in> \<int>" by simp
  have b: "of_nat (length (tasksInProgress sampleQueued)) \<le> concurrency sampleQueued"
    by code_simp
  have i0: "concurrency (createChannel sampleRuntime None) \<in> \<int>"
    by (simp add: createChannel_def)
  have room: "\<not> concurrency (createChannel sampleRuntime None)
      \<le> of_nat (length (tasksInProgress (createChannel sampleRuntime None)))"
    by (simp add: createChannel_def)
  from i0 room inFlight_bounded [of sampleRuntime None silent "[]" "createChannel sampleRuntime None"
      Tick sampleThrowingTask "[]"]
  have "of_nat (length (tasksInProgress (started sampleThrowingTask [] (createChannel sampleRuntime None))))
     \<le> concurrency (started sampleThrowingTask [] (createChannel sampleRuntime None))"
    by blast
  moreover from i p c
    inFlight_bounded [of sampleRuntime "Some \<lparr>argConcurrency = Some 2, argEventHandler = True\<rparr>"
      taskObserverThrows ?acts]
  have "concurrency (run taskObserverThrows sampleTwoSlots ?acts) = 2 \<and>
     of_nat (length (tasksInProgress (run taskObserverThrows sampleTwoSlots ?acts)))
       \<le> concurrency sampleTwoSlots"
    unfolding sampleTwoSlots_def by simp
  moreover from iq b
    inFlight_bounded [of sampleRuntime None silent "[]" sampleQueued
      "Submit (sampleOptions sampleAsync) 3"]
  have "concurrency (step silent (Submit (sampleOptions sampleAsync) 3) sampleQueued) =
     concurrency sampleQueued \<and>
   of_nat (length (tasksInProgress (step silent (Submit (sampleOptions sampleAsync) 3) sampleQueued)))
     \<le> concurrency sampleQueued"
    by blast
  ultimately show ?thesis using i p full iq b i0 room by blast
qed

text \<open>
  C2, as the claim states it, fails: \<^verbatim>\<open>createChannel\<close> stores any number, and the guard
  \<^verbatim>\<open>tasksInProgress.length >= concurrency\<close> of \<^verbatim>\<open>proccessChannel\<close> lets a task start as long
  as the length is below the limit. With the positive limit 1.5, a second task starts
  while one is in flight, and two tasks are in flight.
\<close>

theorem inFlight_exceeds_fractional_limit:
  "concurrency sampleFractional = 3 / 2 \<and>
   0 < concurrency sampleFractional \<and>
   length (tasksInProgress (run silent sampleFractional
     [Submit (sampleOptions sampleAsync) 0, Submit (sampleOptions sampleAsync) 1])) = 2 \<and>
   \<not> of_nat (length (tasksInProgress (run silent sampleFractional
        [Submit (sampleOptions sampleAsync) 0, Submit (sampleOptions sampleAsync) 1])))
      \<le> concurrency sampleFractional"
  by code_simp

subsection \<open>What counts as a promise\<close>






subsection \<open>Every task follows its life cycle\<close>

subsubsection \<open>Lemmas on projections\<close>

lemma eventsOf_simps [simp]:
  "eventsOf i [] = []"
  "eventsOf i (xs @ ys) = eventsOf i xs @ eventsOf i ys"
  "eventsOf i (ev # xs) = (if concerns i ev then ev # eventsOf i xs else eventsOf i xs)"
  by (simp_all add: eventsOf_def)

lemma resolvedOf_simps [simp]:
  "resolvedOf i [] = []"
  "resolvedOf i (xs @ ys) = resolvedOf i xs @ resolvedOf i ys"
  "resolvedOf i ((p, r) # xs) = (if p = i then r # resolvedOf i xs else resolvedOf i xs)"
  by (simp_all add: resolvedOf_def)










subsubsection \<open>Sorting and removal\<close>

lemma sortChannelQueue_le: "sortChannelQueue a b \<le> 0 \<longleftrightarrow> queueKey a \<le> queueKey b"
  by (auto simp: sortChannelQueue_def queueKey_def less_eq_prod_def)

lemma insertBy_insort: "insertBy sortChannelQueue x ys = insort_key queueKey x ys"
  by (induction ys) (simp_all add: sortChannelQueue_le)

lemma sortBy_sort_key: "sortBy sortChannelQueue xs = sort_key queueKey xs"
  by (induction xs) (simp_all add: sortBy_def insertBy_insort)



lemma set_sortBy [simp]: "set (sortBy sortChannelQueue xs) = set xs"
  by (simp add: sortBy_sort_key)

lemma length_sortBy [simp]: "length (sortBy sortChannelQueue xs) = length xs"
  by (simp add: sortBy_sort_key)




subsubsection \<open>Each step keeps the life cycles\<close>


lemma newTask_simps [simp]:
  "tid (newTask options now s) = nextId s"
  "task (newTask options now s) = optTask options"
  "requestedAt (newTask options now s) = now"
  "ownHandler (nextId s) (newTask options now s)"
  "ownHandler (tid (newTask options now s)) (newTask options now s)"
  by (simp_all add: newTask_def ownHandler_def)

lemma no_resolution [simp]:
  "resolutions t (TASK_ADDED u) = []" "resolutions t (TASK_STARTED u) = []"
  by (simp_all add: resolutions_def split: option.splits)









lemma lifecycle_irrelevant [simp]:
  "lifecycle (s\<lparr>scheduled := n\<rparr>) = lifecycle s"
  "lifecycle (s\<lparr>awaiting := a\<rparr>) = lifecycle s"
  by (simp_all add: lifecycle_def view_def)

lemma awaitingOk_irrelevant [simp]:
  "awaitingOk (s\<lparr>scheduled := n\<rparr>) = awaitingOk s"
  by (simp add: awaitingOk_def)




















subsection \<open>Failing tasks\<close>



























subsection \<open>The order of dispatch\<close>

lemma startedTasks_simps [simp]:
  "startedTasks [] = []"
  "startedTasks (xs @ ys) = startedTasks xs @ startedTasks ys"
  "startedTasks (ev # xs) = startedTask ev @ startedTasks xs"
  by (simp_all add: startedTasks_def)

lemma startedTasks_cancelled [simp]: "startedTasks (map TASK_CANCELLED ts) = []"
  by (induction ts) simp_all

lemma insort_key_front: "\<forall>y\<in>set ys. f x \<le> f y \<Longrightarrow> insort_key f x ys = x # ys"
  by (cases ys) auto

lemma insort_push:
  "sorted (map f q) \<Longrightarrow>
   \<exists>as bs. q = as @ bs \<and> foldr (insort_key f) q [t] = as @ t # bs \<and>
     (\<forall>a\<in>set as. f a \<le> f t) \<and> (\<forall>b\<in>set bs. f t < f b)"
proof (induction q)
  case Nil
  show ?case by simp
next
  case (Cons x q)
  then have low: "\<forall>y\<in>set q. f x \<le> f y" and "sorted (map f q)" by auto
  with Cons.IH obtain as bs where q: "q = as @ bs"
    and ins: "foldr (insort_key f) q [t] = as @ t # bs"
    and as: "\<forall>a\<in>set as. f a \<le> f t" and bs: "\<forall>b\<in>set bs. f t < f b"
    by blast
  show ?case
  proof (cases "f x \<le> f t")
    case True
    with low q bs have "\<forall>y\<in>set (as @ t # bs). f x \<le> f y" by auto
    then have "foldr (insort_key f) (x # q) [t] = (x # as) @ t # bs"
      by (simp add: ins insort_key_front)
    moreover have "x # q = (x # as) @ bs" using q by simp
    ultimately show ?thesis using as bs True by (metis set_ConsD)
  next
    case False
    with low q as have "as = []" by (cases as) force+
    with q low have "\<forall>y\<in>set bs. f x \<le> f y" by simp
    then have "foldr (insort_key f) (x # q) [t] = [] @ t # x # bs"
      using False by (simp add: ins \<open>as = []\<close> insort_key_front)
    moreover have "x # q = [] @ x # bs" using q \<open>as = []\<close> by simp
    ultimately show ?thesis using bs False
      by (intro exI [of _ "[]"] exI [of _ "x # bs"]) auto
  qed
qed

lemma sortBy_push:
  assumes "sorted (map queueKey q)"
  obtains as bs where "q = as @ bs" and "sortBy sortChannelQueue (q @ [t]) = as @ t # bs"
    and "\<forall>a\<in>set as. queueKey a \<le> queueKey t" and "\<forall>b\<in>set bs. queueKey t < queueKey b"
proof -
  have "sortBy sortChannelQueue (q @ [t]) = foldr (insort_key queueKey) q [t]"
    by (simp add: sortBy_sort_key sort_key_def)
  with insort_push [OF assms, of t] that show ?thesis by auto
qed

lemma before_key: "before a b \<Longrightarrow> queueKey a \<le> queueKey b"
  by (auto simp: before_def queueKey_def less_eq_prod_def)

lemma sorted_before_key:
  assumes "sorted_wrt before q"
  shows "sorted (map queueKey q)"
proof -
  have "sorted_wrt (\<lambda>x y. queueKey x \<le> queueKey y) q"
    by (rule sorted_wrt_mono_rel [OF _ assms]) (rule before_key)
  then show ?thesis by (simp add: sorted_map)
qed

lemma arrival_weaken: "arrival c s \<Longrightarrow> c \<le> c' \<Longrightarrow> arrival c' s"
  by (fastforce simp: arrival_def)

lemma arrival_enqueued:
  assumes inv: "arrival c s" and le: "c \<le> now"
  shows "arrival now (enqueued options now s)"
proof -
  let ?t = "newTask options now s"
  from inv have srt: "sorted_wrt before (tasksInQueue s)"
    and old: "\<forall>t\<in>set (tasksInQueue s). requestedAt t \<le> c \<and> tid t < nextId s"
    and st: "\<forall>u\<in>set (startedTasks (channelLog s)).
        tid u < nextId s \<and> (\<forall>t\<in>set (tasksInQueue s). sameLevel u t)"
    and ord: "sorted_wrt sameLevel (startedTasks (channelLog s))"
    by (simp_all add: arrival_def)
  from sorted_before_key [OF srt] obtain as bs where q: "tasksInQueue s = as @ bs"
    and q': "sortBy sortChannelQueue (tasksInQueue s @ [?t]) = as @ ?t # bs"
    and as: "\<forall>a\<in>set as. queueKey a \<le> queueKey ?t"
    and bs: "\<forall>b\<in>set bs. queueKey ?t < queueKey b"
    by (rule sortBy_push)
  have a_t: "before a ?t" if "a \<in> set as" for a
    using that as old q by (auto simp: before_def queueKey_def less_eq_prod_def)
  have t_b: "before ?t b" if "b \<in> set bs" for b
  proof -
    from that bs have "priority ?t < priority b \<or>
        priority ?t \<le> priority b \<and> requestedAt ?t < requestedAt b"
      by (auto simp: queueKey_def less_prod_def)
    moreover from that old q have "requestedAt b \<le> c" by simp
    with le have "requestedAt b \<le> requestedAt ?t" by simp
    ultimately show ?thesis by (auto simp: before_def)
  qed
  from srt q have "sorted_wrt before as" and "sorted_wrt before bs"
    and "\<forall>a\<in>set as. \<forall>b\<in>set bs. before a b"
    by (auto simp: sorted_wrt_append)
  with a_t t_b have "sorted_wrt before (as @ ?t # bs)"
    by (auto simp: sorted_wrt_append)
  then have one: "sorted_wrt before (tasksInQueue (enqueued options now s))"
    by (simp add: enqueued_eq q')
  have two: "\<forall>x\<in>set (tasksInQueue (enqueued options now s)).
      requestedAt x \<le> now \<and> tid x < nextId (enqueued options now s)"
  proof
    fix x
    assume "x \<in> set (tasksInQueue (enqueued options now s))"
    then have "x = ?t \<or> x \<in> set (tasksInQueue s)" by (auto simp: enqueued_eq q' q)
    then show "requestedAt x \<le> now \<and> tid x < nextId (enqueued options now s)"
    proof
      assume "x = ?t"
      then show ?thesis by (simp add: enqueued_eq)
    next
      assume "x \<in> set (tasksInQueue s)"
      with old have "requestedAt x \<le> c" and "tid x < nextId s" by simp_all
      with le show ?thesis by (simp add: enqueued_eq)
    qed
  qed
  have log: "startedTasks (channelLog (enqueued options now s)) = startedTasks (channelLog s)"
    by (simp add: enqueued_eq)
  have three: "\<forall>u\<in>set (startedTasks (channelLog (enqueued options now s))).
      tid u < nextId (enqueued options now s) \<and>
      (\<forall>x\<in>set (tasksInQueue (enqueued options now s)). sameLevel u x)"
    unfolding log
  proof
    fix u
    assume u: "u \<in> set (startedTasks (channelLog s))"
    with st have lt: "tid u < nextId s" and lv: "\<forall>t\<in>set (tasksInQueue s). sameLevel u t"
      by simp_all
    have "sameLevel u x" if "x \<in> set (tasksInQueue (enqueued options now s))" for x
    proof -
      from that have "x = ?t \<or> x \<in> set (tasksInQueue s)" by (auto simp: enqueued_eq q' q)
      with lt lv show ?thesis by (auto simp: sameLevel_def)
    qed
    with lt show "tid u < nextId (enqueued options now s) \<and>
      (\<forall>x\<in>set (tasksInQueue (enqueued options now s)). sameLevel u x)"
      by (simp add: enqueued_eq)
  qed
  from one two three ord show ?thesis unfolding arrival_def log by blast
qed

lemma arrival_cancelAll: "arrival c s \<Longrightarrow> arrival c (cancelAllChannelTasks s)"
  by (simp add: arrival_def cancelAllChannelTasks_eq)

lemma arrival_cancelOne:
  assumes "arrival c s" and "tasksInQueue s = xs @ t # ys"
  shows "arrival c (sendEvent t (TASK_CANCELLED t) (s\<lparr>tasksInQueue := xs @ ys\<rparr>))"
proof -
  from assms have "sorted_wrt before (xs @ ys)"
    by (auto simp: arrival_def sorted_wrt_append)
  with assms show ?thesis by (simp add: arrival_def sendEvent_eq)
qed

lemma arrival_started:
  assumes inv: "arrival c s" and queue: "tasksInQueue s = t # q"
  shows "arrival c (started t q s)"
proof -
  from inv queue have srt: "sorted_wrt before q" and first: "\<forall>x\<in>set q. before t x"
    and old: "\<forall>x\<in>set q. requestedAt x \<le> c \<and> tid x < nextId s" and t: "tid t < nextId s"
    and st: "\<forall>u\<in>set (startedTasks (channelLog s)).
        tid u < nextId s \<and> sameLevel u t \<and> (\<forall>x\<in>set q. sameLevel u x)"
    and ord: "sorted_wrt sameLevel (startedTasks (channelLog s))"
    by (simp_all add: arrival_def)
  have log: "startedTasks (channelLog (started t q s)) = startedTasks (channelLog s) @ [t]"
    by (simp add: started_eq)
  from first have "\<forall>x\<in>set q. sameLevel t x" by (auto simp: before_def sameLevel_def)
  with st t have "\<forall>u\<in>set (startedTasks (channelLog s) @ [t]).
      tid u < nextId s \<and> (\<forall>x\<in>set q. sameLevel u x)"
    by auto
  moreover from ord st have "sorted_wrt sameLevel (startedTasks (channelLog s) @ [t])"
    by (simp add: sorted_wrt_append)
  ultimately show ?thesis
    using srt old unfolding arrival_def log by (simp add: started_eq)
qed

lemma arrival_settled: "arrival c s \<Longrightarrow> arrival c (settled t ok err r s)"
  by (simp add: arrival_def settled_eq)

lemma arrival_completed: "arrival c s \<Longrightarrow> arrival c (taskCompleted t ok err r s)"
  by (simp add: arrival_def taskCompleted_eq)

lemma arrival_irrelevant [simp]:
  "arrival c (s\<lparr>scheduled := n\<rparr>) = arrival c s"
  "arrival c (s\<lparr>awaiting := a\<rparr>) = arrival c s"
  by (simp_all add: arrival_def)

lemma stamps_snoc:
  "stamps (acts @ [a]) = stamps acts @ (case stamp a of None \<Rightarrow> [] | Some n \<Rightarrow> [n])"
  by (simp add: stamps_def)

lemma arrival_createChannel: "arrival c (createChannel rt args)"
  by (simp add: arrival_def createChannel_def)

lemma queueKey_le:
  "queueKey a \<le> queueKey b \<longleftrightarrow>
     priority a \<le> priority b \<and> (priority a = priority b \<longrightarrow> requestedAt a \<le> requestedAt b)"
  by (auto simp: queueKey_def less_eq_prod_def)


subsubsection \<open>The events of a dispatch\<close>

lemma pending_simps [simp]:
  "pending [] = []"
  "pending (evs @ [ev]) = pendingStep (pending evs) ev"
  by (simp_all add: pending_def)

lemma pending_cancelled: "pending evs = [] \<Longrightarrow> pending (evs @ map TASK_CANCELLED ts) = []"
proof (induction ts rule: rev_induct)
  case Nil
  then show ?case by simp
next
  case (snoc t ts)
  then have "pending ((evs @ map TASK_CANCELLED ts) @ [TASK_CANCELLED t]) = []"
    unfolding pending_simps by simp
  then show ?case by simp
qed

lemma pending_cancelAll [simp]:
  "pending (evs @ CANCELLED_ALL_TASKS # map TASK_CANCELLED ts) = []"
proof -
  have "pending (evs @ [CANCELLED_ALL_TASKS]) = []" by simp
  from pending_cancelled [OF this, of ts] show ?thesis by simp
qed

lemma orderly_Nil [simp]: "orderly R []"
  by (simp add: orderly_def)

lemma orderly_snoc:
  "orderly R (evs @ [ev]) \<longleftrightarrow>
     orderly R evs \<and>
     (\<forall>u. ev = TASK_STARTED u \<longrightarrow> u \<in> set (pending evs) \<and> (\<forall>t\<in>set (pending evs). R u t))"
proof
  assume o: "orderly R (evs @ [ev])"
  have "orderly R evs"
    unfolding orderly_def
  proof (intro allI impI)
    fix pre u post
    assume "evs = pre @ TASK_STARTED u # post"
    then have "evs @ [ev] = pre @ TASK_STARTED u # (post @ [ev])" by simp
    with o show "u \<in> set (pending pre) \<and> (\<forall>t\<in>set (pending pre). R u t)"
      unfolding orderly_def by blast
  qed
  moreover have "u \<in> set (pending evs) \<and> (\<forall>t\<in>set (pending evs). R u t)"
    if "ev = TASK_STARTED u" for u
  proof -
    from that have "evs @ [ev] = evs @ TASK_STARTED u # []" by simp
    with o show ?thesis unfolding orderly_def by blast
  qed
  ultimately show "orderly R evs \<and>
     (\<forall>u. ev = TASK_STARTED u \<longrightarrow> u \<in> set (pending evs) \<and> (\<forall>t\<in>set (pending evs). R u t))"
    by blast
next
  assume a: "orderly R evs \<and>
     (\<forall>u. ev = TASK_STARTED u \<longrightarrow> u \<in> set (pending evs) \<and> (\<forall>t\<in>set (pending evs). R u t))"
  show "orderly R (evs @ [ev])"
    unfolding orderly_def
  proof (intro allI impI)
    fix pre u post
    assume eq: "evs @ [ev] = pre @ TASK_STARTED u # post"
    show "u \<in> set (pending pre) \<and> (\<forall>t\<in>set (pending pre). R u t)"
    proof (cases post rule: rev_cases)
      case Nil
      with eq have "pre = evs" and "ev = TASK_STARTED u" by simp_all
      with a show ?thesis by simp
    next
      case (snoc post' x)
      with eq have "evs = pre @ TASK_STARTED u # post'" by simp
      with a show ?thesis unfolding orderly_def by blast
    qed
  qed
qed

lemma orderly_append:
  "orderly R evs \<Longrightarrow> startedTasks evs' = [] \<Longrightarrow> orderly R (evs @ evs')"
proof (induction evs' rule: rev_induct)
  case Nil
  then show ?case by simp
next
  case (snoc ev evs')
  from snoc.prems(2) have "startedTasks evs' = []" and "startedTask ev = []" by simp_all
  then have "orderly R (evs @ evs')" and "\<forall>u. ev \<noteq> TASK_STARTED u"
    using snoc.IH snoc.prems(1) by auto
  then have "orderly R ((evs @ evs') @ [ev])" unfolding orderly_snoc by simp
  then show ?case by simp
qed

lemma distinct_tid_sortBy [simp]:
  "distinct (map tid (sortBy sortChannelQueue xs)) = distinct (map tid xs)"
  by (simp add: distinct_map sortBy_sort_key)

lemma traced_irrelevant [simp]:
  "traced R (s\<lparr>scheduled := n\<rparr>) = traced R s"
  "traced R (s\<lparr>awaiting := a\<rparr>) = traced R s"
  by (simp_all add: traced_def)

lemma traced_enqueued:
  assumes "traced R s"
  shows "traced R (enqueued options now s)"
proof -
  let ?t = "newTask options now s"
  let ?s' = "enqueued options now s"
  from assms have p: "set (pending (channelLog s)) = set (tasksInQueue s)"
    and d: "distinct (map tid (tasksInQueue s))"
    and n: "\<forall>x\<in>set (tasksInQueue s). tid x < nextId s"
    and o: "orderly R (channelLog s)"
    by (simp_all add: traced_def)
  from n have fresh: "tid ?t \<notin> tid ` set (tasksInQueue s)" by force
  have one: "set (pending (channelLog ?s')) = set (tasksInQueue ?s')"
    using p by (simp add: enqueued_eq)
  have two: "distinct (map tid (tasksInQueue ?s'))"
    using d fresh by (simp add: enqueued_eq)
  have three: "\<forall>x\<in>set (tasksInQueue ?s'). tid x < nextId ?s'"
    using n by (auto simp: enqueued_eq)
  have four: "orderly R (channelLog ?s')"
    using o by (simp add: enqueued_eq orderly_snoc)
  from one two three four show ?thesis unfolding traced_def by blast
qed

lemma traced_cancelSome:
  "traced R s \<Longrightarrow>
   traced R (s\<lparr>tasksInQueue := [],
              channelLog := channelLog s @ CANCELLED_ALL_TASKS # map TASK_CANCELLED ts\<rparr>)"
  by (simp add: traced_def orderly_append)

lemma traced_cancelAll: "traced R s \<Longrightarrow> traced R (cancelAllChannelTasks s)"
  by (simp add: traced_def cancelAllChannelTasks_eq orderly_append)

lemma distinct_tid_others:
  assumes "distinct (map tid (xs @ t # ys))"
  shows "\<forall>x\<in>set (xs @ ys). tid x \<noteq> tid t"
proof
  fix x
  assume "x \<in> set (xs @ ys)"
  then have "tid x \<in> set (map tid xs) \<union> set (map tid ys)" by auto
  moreover from assms have "tid t \<notin> set (map tid xs) \<union> set (map tid ys)" by auto
  ultimately show "tid x \<noteq> tid t" by metis
qed

lemma traced_removed:
  assumes tr: "traced R s" and queue: "tasksInQueue s = xs @ t # ys"
    and ev: "ev = TASK_STARTED t \<or> ev = TASK_CANCELLED t"
    and ord: "orderly R (channelLog s @ [ev])"
    and s': "tasksInQueue s' = xs @ ys" "channelLog s' = channelLog s @ [ev]" "nextId s' = nextId s"
  shows "traced R s'"
proof -
  from tr queue have p: "set (pending (channelLog s)) = set (xs @ t # ys)"
    and d: "distinct (map tid (xs @ t # ys))"
    and n: "\<forall>x\<in>set (xs @ t # ys). tid x < nextId s"
    by (simp_all add: traced_def)
  from d have other: "\<forall>x\<in>set (xs @ ys). tid x \<noteq> tid t" by (rule distinct_tid_others)
  from ev have "pending (channelLog s @ [ev]) = filter (\<lambda>x. tid x \<noteq> tid t) (pending (channelLog s))"
    by auto
  then have "set (pending (channelLog s')) = {x \<in> set (xs @ t # ys). tid x \<noteq> tid t}"
    using p by (simp add: s')
  also have "\<dots> = set (xs @ ys)" using other by auto
  finally have one: "set (pending (channelLog s')) = set (tasksInQueue s')" by (simp add: s')
  from d have two: "distinct (map tid (tasksInQueue s'))" by (simp add: s')
  from n have three: "\<forall>x\<in>set (tasksInQueue s'). tid x < nextId s'" by (simp add: s')
  from ord have four: "orderly R (channelLog s')" by (simp add: s')
  from one two three four show ?thesis unfolding traced_def by blast
qed

lemma traced_cancelOne:
  assumes "traced R s" and "tasksInQueue s = xs @ t # ys"
  shows "traced R (sendEvent t (TASK_CANCELLED t) (s\<lparr>tasksInQueue := xs @ ys\<rparr>))"
proof (rule traced_removed [OF assms])
  show "TASK_CANCELLED t = TASK_STARTED t \<or> TASK_CANCELLED t = TASK_CANCELLED t" by simp
  from assms(1) show "orderly R (channelLog s @ [TASK_CANCELLED t])"
    by (simp add: traced_def orderly_snoc)
qed (simp_all add: sendEvent_eq)

lemma traced_started:
  assumes tr: "traced R s" and queue: "tasksInQueue s = t # q" and first: "\<forall>x\<in>set (t # q). R t x"
  shows "traced R (started t q s)"
proof (rule traced_removed [OF tr, where xs = "[]" and t = t and ys = q])
  show "tasksInQueue s = [] @ t # q" using queue by simp
  show "TASK_STARTED t = TASK_STARTED t \<or> TASK_STARTED t = TASK_CANCELLED t" by simp
  from tr queue have "set (pending (channelLog s)) = set (t # q)" and "orderly R (channelLog s)"
    by (simp_all add: traced_def)
  with first show "orderly R (channelLog s @ [TASK_STARTED t])"
    unfolding orderly_snoc by simp
qed (simp_all add: started_eq)

lemma traced_completed: "traced R s \<Longrightarrow> traced R (taskCompleted t ok err r s)"
  by (simp add: traced_def taskCompleted_eq orderly_snoc)

lemma traced_settled: "traced R s \<Longrightarrow> traced R (settled t ok err r s)"
  by (simp add: traced_def settled_eq orderly_snoc)

lemma traced_createChannel: "traced R (createChannel rt args)"
  by (simp add: traced_def createChannel_def)

lemma keyOrder_key: "keyOrder a b \<longleftrightarrow> queueKey a \<le> queueKey b"
  by (simp add: keyOrder_def queueKey_le)

lemma keyed_enqueued: "keyed (enqueued options now s)"
  by (simp add: keyed_def enqueued_eq sortBy_sort_key)

lemma keyed_cancelOne:
  "keyed s \<Longrightarrow> tasksInQueue s = xs @ t # ys \<Longrightarrow>
   keyed (sendEvent t (TASK_CANCELLED t) (s\<lparr>tasksInQueue := xs @ ys\<rparr>))"
  by (auto simp: keyed_def sendEvent_eq sorted_append)

lemma keyed_started: "keyed s \<Longrightarrow> tasksInQueue s = t # q \<Longrightarrow> keyed (started t q s)"
  by (simp add: keyed_def started_eq)

lemma keyed_irrelevant [simp]:
  "keyed (s\<lparr>scheduled := n\<rparr>) = keyed s"
  "keyed (s\<lparr>awaiting := a\<rparr>) = keyed s"
  "keyed (taskCompleted t ok err r s) = keyed s"
  "keyed (settled t ok err r s) = keyed s"
  "keyed (s\<lparr>tasksInQueue := [], channelLog := l\<rparr>)"
  "keyed (cancelAllChannelTasks s)"
  by (simp_all add: keyed_def taskCompleted_eq settled_eq cancelAllChannelTasks_eq)

lemma ranked_step: "ranked s \<Longrightarrow> ranked (step obs a s)"
proof (rule step_rule [where Inv = ranked and Pre = ranked and Fin = ranked
      and Mid = "\<lambda>t. ranked" and Post = ranked])
  show "frameFree ranked" by (simp add: frameFree_def ranked_def traced_def keyed_def)
next
  fix s options now
  assume "ranked s"
  then show "ranked (enqueued options now s)"
    by (simp add: ranked_def keyed_enqueued traced_enqueued)
next
  fix s
  assume "ranked s"
  then show "ranked (cancelAllChannelTasks s)" by (simp add: ranked_def traced_cancelAll)
next
  fix s ts
  assume "ranked s"
  then show "ranked (s\<lparr>tasksInQueue := [],
      channelLog := channelLog s @ CANCELLED_ALL_TASKS # map TASK_CANCELLED ts\<rparr>)"
    by (simp add: ranked_def traced_cancelSome)
next
  fix s xs t ys
  assume "ranked s" and "tasksInQueue s = xs @ t # ys"
  then show "ranked (sendEvent t (TASK_CANCELLED t) (s\<lparr>tasksInQueue := xs @ ys\<rparr>))"
    by (simp add: ranked_def keyed_cancelOne traced_cancelOne)
next
  fix s t ok err r
  assume "ranked s"
  then show "ranked (settled t ok err r s)" by (simp add: ranked_def traced_settled)
next
  fix s t q
  assume r: "ranked s" and queue: "tasksInQueue s = t # q"
  then have "\<forall>x\<in>set (t # q). keyOrder t x"
    by (auto simp: ranked_def keyed_def keyOrder_key)
  with r queue show "ranked (started t q s)"
    by (simp add: ranked_def keyed_started traced_started)
next
  fix s t ok err r
  assume "ranked s"
  then show "ranked (taskCompleted t ok err r s)" by (simp add: ranked_def traced_completed)
next
  fix s t r
  assume "ranked s"
  then show "ranked (taskCompleted t False True r s)" by (simp add: ranked_def traced_completed)
qed (simp_all add: ranked_def)

lemma ranked_reachable: "ranked (run obs (createChannel rt args) acts)"
proof (induction acts rule: rev_induct)
  case Nil
  have "keyed (createChannel rt args)" by (simp add: keyed_def createChannel_def)
  then show ?case by (simp add: run_Nil ranked_def traced_createChannel)
next
  case (snoc a acts)
  then show ?case by (simp add: run_snoc ranked_step)
qed

lemma arrival_cancelSome:
  "arrival c s \<Longrightarrow>
   arrival c (s\<lparr>tasksInQueue := [],
                channelLog := channelLog s @ CANCELLED_ALL_TASKS # map TASK_CANCELLED ts\<rparr>)"
  by (simp add: arrival_def)

lemma queued_weaken: "queued c s \<Longrightarrow> c \<le> c' \<Longrightarrow> queued c' s"
  using arrival_weaken [of c s c'] by (simp add: queued_def)

lemma queued_step:
  assumes inv: "queued c s" and le: "c \<le> c'" and now: "\<And>n. stamp a = Some n \<Longrightarrow> n = c'"
  shows "queued c' (step obs a s)"
proof (rule step_rule [where Inv = "queued c" and Pre = "queued c'" and Fin = "queued c'"
      and Mid = "\<lambda>t. queued c'" and Post = "queued c'"])
  show "queued c s" by (rule inv)
next
  show "frameFree (queued c')" by (simp add: frameFree_def queued_def traced_def arrival_def)
next
  fix s
  assume "queued c s"
  then show "queued c' s" using le by (rule queued_weaken)
next
  fix s options n
  assume a: "queued c s" and n: "stamp a = Some n"
  from n have n: "n = c'" by (rule now)
  from a have "arrival c s" and "traced levelOrder s" by (simp_all add: queued_def)
  with le show "queued c' (enqueued options n s)"
    unfolding n by (simp add: queued_def arrival_enqueued traced_enqueued)
next
  fix s
  assume "queued c s"
  then show "queued c (cancelAllChannelTasks s)"
    by (simp add: queued_def arrival_cancelAll traced_cancelAll)
next
  fix s ts
  assume "queued c s"
  then have "queued c (s\<lparr>tasksInQueue := [],
      channelLog := channelLog s @ CANCELLED_ALL_TASKS # map TASK_CANCELLED ts\<rparr>)"
    by (simp add: queued_def arrival_cancelSome traced_cancelSome)
  then show "queued c' (s\<lparr>tasksInQueue := [],
      channelLog := channelLog s @ CANCELLED_ALL_TASKS # map TASK_CANCELLED ts\<rparr>)"
    using le by (rule queued_weaken)
next
  fix s xs t ys
  assume "queued c s" and "tasksInQueue s = xs @ t # ys"
  then have "queued c (sendEvent t (TASK_CANCELLED t) (s\<lparr>tasksInQueue := xs @ ys\<rparr>))"
    by (simp add: queued_def arrival_cancelOne traced_cancelOne)
  then show "queued c' (sendEvent t (TASK_CANCELLED t) (s\<lparr>tasksInQueue := xs @ ys\<rparr>))"
    using le by (rule queued_weaken)
next
  fix s
  assume a: "queued c s" and "0 < scheduled s"
  from a le have "queued c' s" by (rule queued_weaken)
  then show "queued c' (s\<lparr>scheduled := scheduled s - 1\<rparr>)" by (simp add: queued_def)
next
  fix s t ok err r
  assume "queued c s"
  then have "queued c' s" using le by (rule queued_weaken)
  then show "queued c' (settled t ok err r s)"
    by (simp add: queued_def arrival_settled traced_settled)
next
  fix s
  assume "queued c' s"
  then show "queued c' s" .
next
  fix s t q
  assume a: "queued c' s" and queue: "tasksInQueue s = t # q"
  then have "\<forall>x\<in>set q. before t x" by (simp add: queued_def arrival_def)
  then have "\<forall>x\<in>set (t # q). levelOrder t x" by (auto simp: before_def levelOrder_def)
  with a queue show "queued c' (started t q s)"
    by (simp add: queued_def arrival_started traced_started)
next
  fix s t v
  assume "queued c' s"
  then show "queued c' (s\<lparr>awaiting := awaiting s @ [t]\<rparr>)" by (simp add: queued_def)
next
  fix s t ok err r
  assume "queued c' s"
  then show "queued c' (taskCompleted t ok err r s)"
    by (simp add: queued_def arrival_completed traced_completed)
next
  fix s
  assume "queued c' s"
  then show "queued c' (s\<lparr>scheduled := Suc (scheduled s)\<rparr>)" by (simp add: queued_def)
next
  fix s
  assume "queued c' s"
  then show "queued c' s" .
next
  fix s
  assume "queued c' s"
  then show "queued c' s" .
next
  fix s t
  assume "queued c' s"
  then show "queued c' s" .
next
  fix s
  assume "queued c' s"
  then show "queued c' s" .
next
  fix s t r
  assume "queued c' s"
  then show "queued c' (taskCompleted t False True r s)"
    by (simp add: queued_def arrival_completed traced_completed)
qed

lemma queued_run:
  "sorted (c # stamps acts) \<Longrightarrow> queued c s \<Longrightarrow> queued (last (c # stamps acts)) (run obs s acts)"
proof (induction acts rule: rev_induct)
  case Nil
  then show ?case by (simp add: run_Nil stamps_def)
next
  case (snoc a acts)
  let ?c = "last (c # stamps acts)"
  from snoc.prems(1) have srt: "sorted (c # stamps acts)"
    by (simp add: stamps_snoc sorted_append)
  from snoc.IH [OF srt snoc.prems(2)] have inv: "queued ?c (run obs s acts)" .
  show ?case
  proof (cases "stamp a")
    case None
    have "queued ?c (step obs a (run obs s acts))"
      by (rule queued_step [OF inv]) (simp_all add: None)
    with None show ?thesis by (simp add: run_snoc stamps_snoc)
  next
    case (Some n)
    have "?c \<in> set (c # stamps acts)" by (rule last_in_set) simp
    with snoc.prems(1) Some have "?c \<le> n"
      by (auto simp: stamps_snoc sorted_append)
    then have "queued n (step obs a (run obs s acts))"
      by (rule queued_step [OF inv]) (simp add: Some)
    with Some show ?thesis by (simp add: run_snoc stamps_snoc)
  qed
qed

lemma queued_createChannel: "queued c (createChannel rt args)"
  by (simp add: queued_def arrival_createChannel traced_createChannel)

text \<open>
  C3, for clocks that do not go back. Take any run from a fresh channel, of any
  concurrency and with any observers.
  \<^item> The run queue is ordered: a task in front of another has a lower priority, or the same
    priority and a time stamp that is not later; and the queue holds the tasks that the
    events sent so far leave pending.
  \<^item> Every \<^verbatim>\<open>TASK_STARTED\<close> sent so far, whichever call of \<^verbatim>\<open>proccessChannel\<close> sent it, is
    for a task that was queued at that moment and had, among the tasks queued at that
    moment, the lowest priority and, among those of its priority, the earliest time stamp.
  \<^item> If the \<^verbatim>\<open>Date.now()\<close> readings of the submissions never decrease, then of two queued
    tasks with the same priority the one submitted first is in front; every
    \<^verbatim>\<open>TASK_STARTED\<close> sent so far is for the task submitted first among the tasks of its
    priority queued at that moment; and in the sequence of all tasks started so far, of two
    tasks with the same priority the one submitted first was started first.
\<close>

theorem dispatch_order:
  "sorted_wrt
     (\<lambda>a b. priority a \<le> priority b \<and>
        (priority a = priority b \<longrightarrow> requestedAt a \<le> requestedAt b))
     (tasksInQueue (run obs (createChannel rt args) acts)) \<and>
   set (pending (channelLog (run obs (createChannel rt args) acts))) =
     set (tasksInQueue (run obs (createChannel rt args) acts)) \<and>
   (channelLog (run obs (createChannel rt args) acts) = pre @ TASK_STARTED u # post \<longrightarrow>
      u \<in> set (pending pre) \<and>
      (\<forall>t\<in>set (pending pre).
         priority u \<le> priority t \<and>
         (priority u = priority t \<longrightarrow> requestedAt u \<le> requestedAt t))) \<and>
   (sorted (stamps acts) \<longrightarrow>
      sorted_wrt (\<lambda>a b. priority a = priority b \<longrightarrow> tid a < tid b)
        (tasksInQueue (run obs (createChannel rt args) acts)) \<and>
      (channelLog (run obs (createChannel rt args) acts) = pre @ TASK_STARTED u # post \<longrightarrow>
         (\<forall>t\<in>set (pending pre). priority u = priority t \<longrightarrow> tid u \<le> tid t)) \<and>
      sorted_wrt (\<lambda>a b. priority a = priority b \<longrightarrow> tid a < tid b)
        (startedTasks (channelLog (run obs (createChannel rt args) acts))))"
proof -
  let ?s = "run obs (createChannel rt args) acts"
  from ranked_reachable [of obs rt args acts]
  have k: "keyed ?s" and tr: "traced keyOrder ?s" by (simp_all add: ranked_def)
  from k have "sorted_wrt (\<lambda>a b. queueKey a \<le> queueKey b) (tasksInQueue ?s)"
    by (simp add: keyed_def sorted_map)
  then have one: "sorted_wrt
     (\<lambda>a b. priority a \<le> priority b \<and>
        (priority a = priority b \<longrightarrow> requestedAt a \<le> requestedAt b))
     (tasksInQueue ?s)"
    by (simp add: queueKey_le)
  from tr have two: "set (pending (channelLog ?s)) = set (tasksInQueue ?s)"
    by (simp add: traced_def)
  have three: "u \<in> set (pending pre) \<and>
      (\<forall>t\<in>set (pending pre).
         priority u \<le> priority t \<and>
         (priority u = priority t \<longrightarrow> requestedAt u \<le> requestedAt t))"
    if "channelLog ?s = pre @ TASK_STARTED u # post"
  proof -
    from tr have "orderly keyOrder (channelLog ?s)" by (simp add: traced_def)
    with that have "u \<in> set (pending pre) \<and> (\<forall>t\<in>set (pending pre). keyOrder u t)"
      unfolding orderly_def by blast
    then show ?thesis by (simp add: keyOrder_def)
  qed
  have four: "sorted_wrt (\<lambda>a b. priority a = priority b \<longrightarrow> tid a < tid b) (tasksInQueue ?s) \<and>
      (channelLog ?s = pre @ TASK_STARTED u # post \<longrightarrow>
         (\<forall>t\<in>set (pending pre). priority u = priority t \<longrightarrow> tid u \<le> tid t)) \<and>
      sorted_wrt (\<lambda>a b. priority a = priority b \<longrightarrow> tid a < tid b)
        (startedTasks (channelLog ?s))"
    if mono: "sorted (stamps acts)"
  proof -
    define c where "c = (case stamps acts of [] \<Rightarrow> 0 | n # _ \<Rightarrow> n)"
    from mono have "sorted (c # stamps acts)" by (cases "stamps acts") (simp_all add: c_def)
    from queued_run [OF this queued_createChannel]
    have "queued (last (c # stamps acts)) ?s" .
    then have b: "sorted_wrt before (tasksInQueue ?s)"
      and l: "sorted_wrt sameLevel (startedTasks (channelLog ?s))"
      and o: "orderly levelOrder (channelLog ?s)"
      by (simp_all add: queued_def arrival_def traced_def)
    have "sorted_wrt sameLevel (tasksInQueue ?s)"
      by (rule sorted_wrt_mono_rel [OF _ b]) (simp add: before_def sameLevel_def)
    moreover have "sameLevel = (\<lambda>a b. priority a = priority b \<longrightarrow> tid a < tid b)"
      by (simp add: sameLevel_def fun_eq_iff)
    moreover have "\<forall>t\<in>set (pending pre). priority u = priority t \<longrightarrow> tid u \<le> tid t"
      if "channelLog ?s = pre @ TASK_STARTED u # post"
    proof -
      from o that have "\<forall>t\<in>set (pending pre). levelOrder u t" unfolding orderly_def by blast
      then show ?thesis by (simp add: levelOrder_def)
    qed
    ultimately show ?thesis using l by simp
  qed
  from one two three four show ?thesis by blast
qed

theorem dispatch_order_witness:
  "sorted (stamps (samplePriorities @ [Tick, Tick])) \<and>
   map tid (tasksInQueue (run silent (createChannel sampleRuntime None) samplePriorities)) = [2, 3, 1] \<and>
   map priority (tasksInQueue (run silent (createChannel sampleRuntime None) samplePriorities)) =
     [0, 0, 5] \<and>
   sorted (stamps samplePriorities) \<and>
   sorted_wrt
     (\<lambda>a b. priority a \<le> priority b \<and>
        (priority a = priority b \<longrightarrow> requestedAt a \<le> requestedAt b))
     (tasksInQueue (run silent (createChannel sampleRuntime None) samplePriorities)) \<and>
   sorted_wrt (\<lambda>a b. priority a = priority b \<longrightarrow> tid a < tid b)
     (tasksInQueue (run silent (createChannel sampleRuntime None) samplePriorities)) \<and>
   set (pending (channelLog (run silent (createChannel sampleRuntime None) samplePriorities))) =
     set (tasksInQueue (run silent (createChannel sampleRuntime None) samplePriorities)) \<and>
   channelLog (run silent (createChannel sampleRuntime None) (samplePriorities @ [Tick, Tick])) =
     take 6 (channelLog (run silent (createChannel sampleRuntime None)
       (samplePriorities @ [Tick, Tick]))) @
     TASK_STARTED (startedTasks (channelLog (run silent (createChannel sampleRuntime None)
       (samplePriorities @ [Tick, Tick]))) ! 1) #
     drop 7 (channelLog (run silent (createChannel sampleRuntime None)
       (samplePriorities @ [Tick, Tick]))) \<and>
   tid (startedTasks (channelLog (run silent (createChannel sampleRuntime None)
       (samplePriorities @ [Tick, Tick]))) ! 1) = 2 \<and>
   map tid (pending (take 6 (channelLog (run silent (createChannel sampleRuntime None)
       (samplePriorities @ [Tick, Tick]))))) = [1, 2, 3] \<and>
   map priority (pending (take 6 (channelLog (run silent (createChannel sampleRuntime None)
       (samplePriorities @ [Tick, Tick]))))) = [5, 0, 0] \<and>
   startedTasks (channelLog (run silent (createChannel sampleRuntime None)
       (samplePriorities @ [Tick, Tick]))) ! 1
     \<in> set (pending (take 6 (channelLog (run silent (createChannel sampleRuntime None)
       (samplePriorities @ [Tick, Tick]))))) \<and>
   list_all
     (\<lambda>t. priority (startedTasks (channelLog (run silent (createChannel sampleRuntime None)
              (samplePriorities @ [Tick, Tick]))) ! 1) \<le> priority t \<and>
          (priority (startedTasks (channelLog (run silent (createChannel sampleRuntime None)
              (samplePriorities @ [Tick, Tick]))) ! 1) = priority t \<longrightarrow>
           tid (startedTasks (channelLog (run silent (createChannel sampleRuntime None)
              (samplePriorities @ [Tick, Tick]))) ! 1) \<le> tid t))
     (pending (take 6 (channelLog (run silent (createChannel sampleRuntime None)
       (samplePriorities @ [Tick, Tick]))))) \<and>
   map tid (startedTasks (channelLog
     (run silent (createChannel sampleRuntime None) (samplePriorities @ [Tick, Tick])))) = [0, 2, 3] \<and>
   sorted_wrt (\<lambda>a b. priority a = priority b \<longrightarrow> tid a < tid b)
     (startedTasks (channelLog
       (run silent (createChannel sampleRuntime None) (samplePriorities @ [Tick, Tick]))))"
proof -
  let ?s = "run silent (createChannel sampleRuntime None) samplePriorities"
  let ?s' = "run silent (createChannel sampleRuntime None) (samplePriorities @ [Tick, Tick])"
  let ?u = "startedTasks (channelLog ?s') ! 1"
  let ?pre = "take 6 (channelLog ?s')"
  let ?post = "drop 7 (channelLog ?s')"
  have mono: "sorted (stamps samplePriorities)" by code_simp
  have mono': "sorted (stamps (samplePriorities @ [Tick, Tick]))" by code_simp
  have ids: "map tid (tasksInQueue ?s) = [2, 3, 1]" by code_simp
  have prios: "map priority (tasksInQueue ?s) = [0, 0, 5]" by code_simp
  have split: "channelLog ?s' = ?pre @ TASK_STARTED ?u # ?post" by code_simp
  have u: "tid ?u = 2" by code_simp
  have pids: "map tid (pending ?pre) = [1, 2, 3]" by code_simp
  have pprios: "map priority (pending ?pre) = [5, 0, 0]" by code_simp
  have starts: "map tid (startedTasks (channelLog ?s')) = [0, 2, 3]" by code_simp
  from dispatch_order [of silent sampleRuntime None samplePriorities] mono
  have "sorted_wrt
     (\<lambda>a b. priority a \<le> priority b \<and>
        (priority a = priority b \<longrightarrow> requestedAt a \<le> requestedAt b))
     (tasksInQueue ?s) \<and>
     sorted_wrt (\<lambda>a b. priority a = priority b \<longrightarrow> tid a < tid b) (tasksInQueue ?s) \<and>
     set (pending (channelLog ?s)) = set (tasksInQueue ?s)"
    by blast
  moreover from dispatch_order [of silent sampleRuntime None "samplePriorities @ [Tick, Tick]"
      ?pre ?u ?post] split mono'
  have "?u \<in> set (pending ?pre) \<and>
     (\<forall>t\<in>set (pending ?pre). priority ?u \<le> priority t) \<and>
     (\<forall>t\<in>set (pending ?pre). priority ?u = priority t \<longrightarrow> tid ?u \<le> tid t) \<and>
     sorted_wrt (\<lambda>a b. priority a = priority b \<longrightarrow> tid a < tid b) (startedTasks (channelLog ?s'))"
    by blast
  then have "?u \<in> set (pending ?pre) \<and>
     list_all (\<lambda>t. priority ?u \<le> priority t \<and> (priority ?u = priority t \<longrightarrow> tid ?u \<le> tid t))
       (pending ?pre) \<and>
     sorted_wrt (\<lambda>a b. priority a = priority b \<longrightarrow> tid a < tid b) (startedTasks (channelLog ?s'))"
    unfolding list_all_iff by blast
  ultimately show ?thesis using mono mono' ids prios split u pids pprios starts by blast
qed

text \<open>
  C3, as the claim states it, fails: the queue is sorted by the \<^verbatim>\<open>Date.now()\<close> reading of
  each submission, not by the order of the submissions. When the clock is set back between
  two submissions of the same priority, the later one is put in front of the earlier one
  and is started first.
\<close>

theorem later_submission_overtakes:
  "map tid (tasksInQueue (run silent (createChannel sampleRuntime None) (take 3 sampleClockBack))) =
     [2, 1] \<and>
   map priority (tasksInQueue (run silent (createChannel sampleRuntime None)
     (take 3 sampleClockBack))) = [0, 0] \<and>
   map requestedAt (tasksInQueue (run silent (createChannel sampleRuntime None)
     (take 3 sampleClockBack))) = [3, 5] \<and>
   map tid (startedTasks (channelLog (run silent (createChannel sampleRuntime None)
     sampleClockBack))) = [0, 2] \<and>
   map tid (tasksInQueue (run silent (createChannel sampleRuntime None) sampleClockBack)) = [1]"
  by code_simp

end
